theory Spec2Isabelle
  imports Main "HOL-Library.AList" "HOL-Library.Word"
begin

unbundle bit_operations_syntax

section \<open>Exceptions\<close>

text \<open>An exception is a value; a call that may raise returns \<open>exn + 'a\<close> (\<open>Inl\<close> the
  exception), or \<open>exn option\<close> when it returns nothing.\<close>

datatype exn =
    ValueError
  | TypeError
  | KeyError
  | AttributeError
  | OSError
  | GitCommandError
  | OtherException string

section \<open>The page store (utils/SupabaseClient.py)\<close>

text \<open>
  URLs, HTML and titles are Python strings. The table \<open>pages\<close> of the store is modelled as
  the list of its rows, in insertion order; a query \<open>select().eq(col, v)\<close> matches the rows
  whose column equals \<open>v\<close>.
\<close>

type_synonym url = string

record page_row =
  row_url :: url
  row_html :: string
  row_title :: string
  row_origin_id :: string

type_synonym page_store = "page_row list"

definition select_eq_url :: "page_store \<Rightarrow> url \<Rightarrow> page_row list" where
  "select_eq_url db u = filter (\<lambda>r. row_url r = u) db"

definition select_eq_origin :: "page_store \<Rightarrow> string \<Rightarrow> page_row list" where
  "select_eq_origin db origin_id = filter (\<lambda>r. row_origin_id r = origin_id) db"

text \<open>
  The client library is not part of the repository. What the methods of the adapter need of
  it is a parameter of the model: whether \<open>execute()\<close> raises for a call of a method (fixed
  per method and argument), and what \<open>len\<close> and iteration make of the response object that
  \<open>execute()\<close> returns (\<open>None\<close>: the operation raises TypeError, the object does not support
  it). The attribute \<open>data\<close> of a response is the list of the matching rows. Iterating a
  response yields items; an item is a string, or something else.
\<close>

datatype store_call =
    IsCrawledCall url
  | InsertCall url
  | GetPageCall url
  | UrlsByOriginCall string

datatype response = Response "page_row list"

fun data :: "response \<Rightarrow> page_row list" where
  "data (Response rows) = rows"

datatype loop_item = Url url | Other

record client_lib =
  execute_raises :: "store_call \<Rightarrow> bool"
  response_len :: "response \<Rightarrow> nat option"
  response_iter :: "response \<Rightarrow> loop_item list option"

text \<open>\<open>execute()\<close> inside a method: \<open>None\<close> when it raises.\<close>

definition execute :: "client_lib \<Rightarrow> store_call \<Rightarrow> page_row list \<Rightarrow> response option" where
  "execute lib call matching = (if execute_raises lib call then None else Some (Response matching))"

text \<open>\<open>isCrawled\<close> returns \<open>len(result) > 0\<close>; when the query or \<open>len\<close> raises, the \<open>except\<close>
  prints and the method returns Python's \<open>None\<close>, here \<open>None\<close>.\<close>

definition isCrawled :: "client_lib \<Rightarrow> page_store \<Rightarrow> url \<Rightarrow> bool option" where
  "isCrawled lib db u =
     (case execute lib (IsCrawledCall u) (select_eq_url db u) of
        None \<Rightarrow> None
      | Some result \<Rightarrow>
          (case response_len lib result of
             None \<Rightarrow> None
           | Some n \<Rightarrow> Some (0 < n)))"

text \<open>The \<open>except\<close> of \<open>insert_page_to_db\<close> swallows a failed insert: the table stays as it
  is.\<close>

definition insert_page_to_db ::
  "client_lib \<Rightarrow> page_store \<Rightarrow> url \<Rightarrow> string \<Rightarrow> string \<Rightarrow> string \<Rightarrow> page_store" where
  "insert_page_to_db lib db u h t origin =
     (case execute lib (InsertCall u) [] of
        None \<Rightarrow> db
      | Some _ \<Rightarrow> db @ [\<lparr>row_url = u, row_html = h, row_title = t, row_origin_id = origin\<rparr>])"

text \<open>\<open>result.data[0]\<close>: the first matching row; a failed query and the IndexError of an
  empty answer are caught inside the method, which then returns \<open>None\<close>.\<close>

definition get_page_from_db :: "client_lib \<Rightarrow> page_store \<Rightarrow> url \<Rightarrow> page_row option" where
  "get_page_from_db lib db u =
     (case execute lib (GetPageCall u) (select_eq_url db u) of
        None \<Rightarrow> None
      | Some result \<Rightarrow> (case data result of [] \<Rightarrow> None | r # _ \<Rightarrow> Some r))"

text \<open>\<open>get_page_urls_by_origin\<close> returns the response object itself, or \<open>None\<close> when the query
  raises.\<close>

definition get_page_urls_by_origin :: "client_lib \<Rightarrow> page_store \<Rightarrow> string \<Rightarrow> response option" where
  "get_page_urls_by_origin lib db origin_id =
     execute lib (UrlsByOriginCall origin_id) (select_eq_origin db origin_id)"

section \<open>The crawl loop (crawler.py)\<close>

text \<open>
  What \<open>crawler.arun\<close> hands back for a URL: the success flag, the HTML, the title
  (\<open>None\<close> when \<open>metadata["title"]\<close> is missing, which raises KeyError in the source) and the
  list \<open>links['internal']\<close> (\<open>None\<close> when reading it raises). A link is a dictionary, taken
  here by its entry \<open>href\<close>: \<open>None\<close> when the key is missing, so that \<open>link['href']\<close> raises
  KeyError. The fetch collaborator is a function \<open>arun :: url \<Rightarrow> crawl_result option\<close>,
  \<open>None\<close> meaning that the call raised. The network location \<open>urlparse(u).netloc\<close> is a
  parameter \<open>netloc\<close> of the model; \<open>urlparse\<close> raises ValueError on some strings, for which
  \<open>netloc\<close> is \<open>None\<close>.
\<close>

type_synonym link = "url option"

record crawl_result =
  success :: bool
  html :: string
  title :: "string option"
  internal_links :: "link list option"

text \<open>
  The variables of \<open>crawl_website\<close>, the store, and the list of the URLs \<open>arun\<close> was called
  on (the fetches), in call order.
\<close>

record crawl_state =
  visited :: "url set"
  to_crawl :: "url list"
  crawled_pages :: "url list"
  db :: page_store
  fetch_log :: "url list"

text \<open>The body of \<open>for link in links\<close>: \<open>link['href']\<close>, \<open>urlparse(href)\<close>, and the gate in
  front of \<open>to_crawl.append(href)\<close>. \<open>Inl\<close>: the body raises.\<close>

definition enqueue ::
  "(url \<Rightarrow> string option) \<Rightarrow> string \<Rightarrow> url set \<Rightarrow> url list \<Rightarrow> link \<Rightarrow> exn + url list" where
  "enqueue netloc domain vis queue link =
     (case link of
        None \<Rightarrow> Inl KeyError
      | Some href \<Rightarrow>
          (case netloc href of
             None \<Rightarrow> Inl ValueError
           | Some d \<Rightarrow> Inr (if d = domain \<and> href \<notin> vis then queue @ [href] else queue)))"

text \<open>The \<open>for\<close> loop: it ends at the first link whose body raises. The result is the queue
  as the loop leaves it, and the exception that ended it, if any.\<close>

fun enqueue_links ::
  "(url \<Rightarrow> string option) \<Rightarrow> string \<Rightarrow> url set \<Rightarrow> url list \<Rightarrow> link list \<Rightarrow> url list \<times> exn option" where
  "enqueue_links netloc domain vis queue [] = (queue, None)"
| "enqueue_links netloc domain vis queue (link # links) =
     (case enqueue netloc domain vis queue link of
        Inl x \<Rightarrow> (queue, Some x)
      | Inr queue' \<Rightarrow> enqueue_links netloc domain vis queue' links)"

text \<open>One pass through the body of \<open>while to_crawl\<close>. Every exception raised inside the
  \<open>try\<close> is caught and printed, and the loop goes on with the state reached so far. The
  answer of \<open>isCrawled\<close> is tested for truth: \<open>None\<close> counts as false.\<close>

definition crawl_iteration ::
  "(url \<Rightarrow> string option) \<Rightarrow> (url \<Rightarrow> crawl_result option) \<Rightarrow> client_lib \<Rightarrow> url \<Rightarrow> string \<Rightarrow>
   crawl_state \<Rightarrow> crawl_state" where
  "crawl_iteration netloc arun lib start_url origin s =
     (case to_crawl s of
        [] \<Rightarrow> s
      | u # rest \<Rightarrow>
          let s1 = s\<lparr>to_crawl := rest\<rparr> in
          if u \<in> visited s1 then s1
          else
            let s2 = s1\<lparr>visited := insert u (visited s1)\<rparr> in
            if isCrawled lib (db s2) u = Some True then s2
            else
              let s3 = s2\<lparr>fetch_log := fetch_log s2 @ [u]\<rparr> in
              (case arun u of
                 None \<Rightarrow> s3
               | Some result \<Rightarrow>
                   if \<not> success result then s3
                   else
                     (case title result of
                        None \<Rightarrow> s3
                      | Some t \<Rightarrow>
                          let s4 = s3\<lparr>db := insert_page_to_db lib (db s3) u (html result) t origin,
                                      crawled_pages := crawled_pages s3 @ [u]\<rparr>
                          in (case internal_links result of
                                None \<Rightarrow> s4
                              | Some links \<Rightarrow>
                                  (case netloc start_url of
                                     None \<Rightarrow> s4
                                   | Some domain \<Rightarrow>
                                       s4\<lparr>to_crawl := fst (enqueue_links netloc domain (visited s4)
                                                              (to_crawl s4) links)\<rparr>)))))"

text \<open>The loop may run forever (a site with infinitely many pages): not returning is
  \<open>None\<close>.\<close>

partial_function (option) crawl_loop ::
  "(url \<Rightarrow> string option) \<Rightarrow> (url \<Rightarrow> crawl_result option) \<Rightarrow> client_lib \<Rightarrow> url \<Rightarrow> string \<Rightarrow>
   crawl_state \<Rightarrow> crawl_state option" where
  "crawl_loop netloc arun lib start_url origin s =
     (if to_crawl s = [] then Some s
      else crawl_loop netloc arun lib start_url origin (crawl_iteration netloc arun lib start_url origin s))"

definition crawl_init :: "page_store \<Rightarrow> url \<Rightarrow> crawl_state" where
  "crawl_init db0 start_url =
     \<lparr>visited = {}, to_crawl = [start_url], crawled_pages = [], db = db0, fetch_log = []\<rparr>"

text \<open>\<open>crawl_website\<close> returns \<open>crawled_pages\<close>; the model also hands back the final state,
  from which the store and the fetches are read. The client it constructs reads the
  configuration that \<open>process_website\<close> has read before calling it; the ValueError of a
  missing configuration is raised there.\<close>

definition crawl_website ::
  "(url \<Rightarrow> string option) \<Rightarrow> (url \<Rightarrow> crawl_result option) \<Rightarrow> client_lib \<Rightarrow> page_store \<Rightarrow> string \<Rightarrow>
   url \<Rightarrow> crawl_state option" where
  "crawl_website netloc arun lib db0 origin start_url =
     crawl_loop netloc arun lib start_url origin (crawl_init db0 start_url)"

text \<open>The state after \<open>n\<close> passes through the loop body.\<close>

definition crawl_after ::
  "(url \<Rightarrow> string option) \<Rightarrow> (url \<Rightarrow> crawl_result option) \<Rightarrow> client_lib \<Rightarrow> page_store \<Rightarrow> string \<Rightarrow>
   url \<Rightarrow> nat \<Rightarrow> crawl_state" where
  "crawl_after netloc arun lib db0 origin start_url n =
     ((crawl_iteration netloc arun lib start_url origin) ^^ n) (crawl_init db0 start_url)"

subsection \<open>The crawl as a graph search\<close>

text \<open>
  The \<open>href\<close>s that the links of a page carry, and the links the loop may follow from a page:
  the \<open>href\<close>s of the fetch result whose network location is that of the start URL.
  \<open>reachable_urls\<close> is what can be reached from the start URL along such links, and \<open>hops\<close>
  the least number of links needed.
\<close>

definition hrefs :: "link list \<Rightarrow> url list" where
  "hrefs links = concat (map (\<lambda>l. case l of None \<Rightarrow> [] | Some h \<Rightarrow> [h]) links)"

definition same_domain_links ::
  "(url \<Rightarrow> string option) \<Rightarrow> (url \<Rightarrow> crawl_result option) \<Rightarrow> url \<Rightarrow> url \<Rightarrow> url list" where
  "same_domain_links netloc arun start_url u =
     (case arun u of
        None \<Rightarrow> []
      | Some r \<Rightarrow>
          (case internal_links r of
             None \<Rightarrow> []
           | Some links \<Rightarrow>
               (case netloc start_url of
                  None \<Rightarrow> []
                | Some domain \<Rightarrow> filter (\<lambda>v. netloc v = Some domain) (hrefs links))))"

definition link_edges ::
  "(url \<Rightarrow> string option) \<Rightarrow> (url \<Rightarrow> crawl_result option) \<Rightarrow> url \<Rightarrow> (url \<times> url) set" where
  "link_edges netloc arun start_url = {(u, v). v \<in> set (same_domain_links netloc arun start_url u)}"

definition reachable_urls ::
  "(url \<Rightarrow> string option) \<Rightarrow> (url \<Rightarrow> crawl_result option) \<Rightarrow> url \<Rightarrow> url set" where
  "reachable_urls netloc arun start_url = {v. (start_url, v) \<in> (link_edges netloc arun start_url)\<^sup>*}"

definition hops :: "(url \<Rightarrow> string option) \<Rightarrow> (url \<Rightarrow> crawl_result option) \<Rightarrow> url \<Rightarrow> url \<Rightarrow> nat" where
  "hops netloc arun start_url v = (LEAST n. (start_url, v) \<in> link_edges netloc arun start_url ^^ n)"

text \<open>The store reports no reachable URL as crawled, and every fetch of one succeeds.\<close>

definition fetch_ok ::
  "(url \<Rightarrow> string option) \<Rightarrow> (url \<Rightarrow> crawl_result option) \<Rightarrow> client_lib \<Rightarrow> page_store \<Rightarrow> url \<Rightarrow> bool" where
  "fetch_ok nl ar lib db0 U \<longleftrightarrow>
     (\<forall>u \<in> reachable_urls nl ar U.
        isCrawled lib db0 u \<noteq> Some True \<and> (\<exists>r t. ar u = Some r \<and> success r \<and> title r = Some t))"

text \<open>The links of every reachable page can be read: the list is there, every link carries
  an \<open>href\<close>, and \<open>urlparse\<close> accepts every \<open>href\<close>.\<close>

definition links_ok :: "(url \<Rightarrow> string option) \<Rightarrow> (url \<Rightarrow> crawl_result option) \<Rightarrow> url \<Rightarrow> bool" where
  "links_ok nl ar U \<longleftrightarrow>
     (\<forall>u \<in> reachable_urls nl ar U. \<forall>r. ar u = Some r \<longrightarrow>
        (\<exists>links. internal_links r = Some links \<and> (\<forall>l \<in> set links. \<exists>h. l = Some h \<and> nl h \<noteq> None)))"

text \<open>The loop invariant of the search, and the invariant that orders it by levels.\<close>

definition crawl_inv ::
  "(url \<Rightarrow> string option) \<Rightarrow> (url \<Rightarrow> crawl_result option) \<Rightarrow> page_store \<Rightarrow> url \<Rightarrow> crawl_state \<Rightarrow> bool" where
  "crawl_inv nl ar db0 U s \<longleftrightarrow>
     visited s \<subseteq> reachable_urls nl ar U \<and>
     set (to_crawl s) \<subseteq> reachable_urls nl ar U \<and>
     set (fetch_log s) = visited s \<and> distinct (fetch_log s) \<and>
     crawled_pages s = fetch_log s \<and>
     (\<forall>u. u \<notin> visited s \<longrightarrow> select_eq_url (db s) u = select_eq_url db0 u) \<and>
     U \<in> visited s \<union> set (to_crawl s) \<and>
     (\<forall>x \<in> visited s. \<forall>y. (x, y) \<in> link_edges nl ar U \<longrightarrow> y \<in> visited s \<union> set (to_crawl s))"

definition level_inv ::
  "(url \<Rightarrow> string option) \<Rightarrow> (url \<Rightarrow> crawl_result option) \<Rightarrow> url \<Rightarrow> crawl_state \<Rightarrow> nat \<Rightarrow> bool" where
  "level_inv nl ar U s k \<longleftrightarrow>
     (\<forall>x \<in> visited s. hops nl ar U x \<le> k) \<and>
     (\<forall>x \<in> reachable_urls nl ar U. hops nl ar U x < k \<longrightarrow> x \<in> visited s) \<and>
     (\<forall>q \<in> set (to_crawl s). hops nl ar U q \<le> Suc k) \<and>
     (\<forall>xs w ys. to_crawl s = xs @ w # ys \<longrightarrow> w \<notin> visited s \<longrightarrow> hops nl ar U w = Suc k \<longrightarrow>
        (\<forall>x \<in> reachable_urls nl ar U. hops nl ar U x = k \<longrightarrow> x \<notin> visited s \<longrightarrow> x \<in> set xs)) \<and>
     sorted (map (hops nl ar U) (fetch_log s))"

text \<open>What the loop keeps true, whatever the fetches return: the rows of a URL it has not
  popped are those the store held at the start, no URL that the store reported as crawled at
  the start is fetched, and the list of crawled pages is part of the fetches.\<close>

definition store_inv :: "client_lib \<Rightarrow> page_store \<Rightarrow> crawl_state \<Rightarrow> bool" where
  "store_inv lib db0 s \<longleftrightarrow>
     (\<forall>v. v \<notin> visited s \<longrightarrow> select_eq_url (db s) v = select_eq_url db0 v) \<and>
     (\<forall>v \<in> set (fetch_log s). isCrawled lib db0 v \<noteq> Some True) \<and>
     set (crawled_pages s) \<subseteq> set (fetch_log s)"

section \<open>The result cache (analyzer.py)\<close>

subsection \<open>Python values and JSON\<close>

text \<open>
  The values the analysis produces and the cache stores. \<open>json.dump\<close> writes every value
  but a set (TypeError: not JSON serializable); what it writes, \<open>json.load\<close> reads back as the
  same value.
\<close>

datatype pyval =
    PyNone
  | PyBool bool
  | PyInt int
  | PyStr string
  | PyList "pyval list"
  | PyDict "(string \<times> pyval) list"
  | PySet "pyval list"

fun json_serializable :: "pyval \<Rightarrow> bool" where
  "json_serializable (PyList vs) = (\<forall>v \<in> set vs. json_serializable v)"
| "json_serializable (PyDict kvs) = (\<forall>v \<in> set (map snd kvs). json_serializable v)"
| "json_serializable (PySet vs) = False"
| "json_serializable _ = True"

subsection \<open>SHA-256 (hashlib.sha256, FIPS 180-4)\<close>

text \<open>A Python string is modelled by its UTF-8 bytes, one \<open>char\<close> per byte, so that
  \<open>s.encode('utf-8')\<close> is the string itself read as bytes.\<close>

type_synonym w32 = "32 word"

text \<open>The round constants (the first 32 bits of the fractional parts of the cube roots of the
  first 64 primes) and the initial hash value (likewise from the square roots of the first 8
  primes), written in decimal.\<close>

definition sha256_K :: "w32 list" where
  "sha256_K =
    [1116352408, 1899447441, 3049323471, 3921009573, 961987163, 1508970993,
     2453635748, 2870763221, 3624381080, 310598401, 607225278, 1426881987,
     1925078388, 2162078206, 2614888103, 3248222580, 3835390401, 4022224774,
     264347078, 604807628, 770255983, 1249150122, 1555081692, 1996064986,
     2554220882, 2821834349, 2952996808, 3210313671, 3336571891, 3584528711,
     113926993, 338241895, 666307205, 773529912, 1294757372, 1396182291,
     1695183700, 1986661051, 2177026350, 2456956037, 2730485921, 2820302411,
     3259730800, 3345764771, 3516065817, 3600352804, 4094571909, 275423344,
     430227734, 506948616, 659060556, 883997877, 958139571, 1322822218,
     1537002063, 1747873779, 1955562222, 2024104815, 2227730452, 2361852424,
     2428436474, 2756734187, 3204031479, 3329325298]"

definition sha256_H0 :: "w32 list" where
  "sha256_H0 =
    [1779033703, 3144134277, 1013904242, 2773480762,
     1359893119, 2600822924, 528734635, 1541459225]"

definition rotr :: "nat \<Rightarrow> w32 \<Rightarrow> w32" where
  "rotr n x = word_rotr n x"

definition big_sigma0 :: "w32 \<Rightarrow> w32" where
  "big_sigma0 x = rotr 2 x XOR rotr 13 x XOR rotr 22 x"

definition big_sigma1 :: "w32 \<Rightarrow> w32" where
  "big_sigma1 x = rotr 6 x XOR rotr 11 x XOR rotr 25 x"

definition small_sigma0 :: "w32 \<Rightarrow> w32" where
  "small_sigma0 x = rotr 7 x XOR rotr 18 x XOR drop_bit 3 x"

definition small_sigma1 :: "w32 \<Rightarrow> w32" where
  "small_sigma1 x = rotr 17 x XOR rotr 19 x XOR drop_bit 10 x"

definition ch :: "w32 \<Rightarrow> w32 \<Rightarrow> w32 \<Rightarrow> w32" where
  "ch x y z = (x AND y) XOR (NOT x AND z)"

definition maj :: "w32 \<Rightarrow> w32 \<Rightarrow> w32 \<Rightarrow> w32" where
  "maj x y z = (x AND y) XOR (x AND z) XOR (y AND z)"

text \<open>Padding: the message bytes, the byte 0x80, zero bytes up to length 56 modulo 64, then
  the length in bits as eight big-endian bytes.\<close>

definition sha256_pad :: "8 word list \<Rightarrow> 8 word list" where
  "sha256_pad bs =
     bs @ [0x80] @ replicate ((119 - length bs mod 64) mod 64) 0 @
     map (\<lambda>i. ucast (drop_bit (8 * (7 - i)) (word_of_nat (8 * length bs) :: 64 word))) [0..<8]"

definition be_word :: "8 word list \<Rightarrow> w32" where
  "be_word bs = foldl (\<lambda>acc b. push_bit 8 acc OR ucast b) 0 bs"

definition block_words :: "8 word list \<Rightarrow> w32 list" where
  "block_words block = map (\<lambda>j. be_word (take 4 (drop (4 * j) block))) [0..<16]"

fun schedule :: "nat \<Rightarrow> w32 list \<Rightarrow> w32 list" where
  "schedule 0 ws = ws"
| "schedule (Suc n) ws =
     schedule n (ws @ [small_sigma1 (ws ! (length ws - 2)) + ws ! (length ws - 7) +
                       small_sigma0 (ws ! (length ws - 15)) + ws ! (length ws - 16)])"

type_synonym sha_regs = "w32 \<times> w32 \<times> w32 \<times> w32 \<times> w32 \<times> w32 \<times> w32 \<times> w32"

fun sha256_round :: "w32 \<times> w32 \<Rightarrow> sha_regs \<Rightarrow> sha_regs" where
  "sha256_round (k, w) (a, b, c, d, e, f, g, h) =
     (let t1 = h + big_sigma1 e + ch e f g + k + w;
          t2 = big_sigma0 a + maj a b c
      in (t1 + t2, a, b, c, d + t1, e, f, g))"

fun regs_of :: "w32 list \<Rightarrow> sha_regs" where
  "regs_of [a, b, c, d, e, f, g, h] = (a, b, c, d, e, f, g, h)"
| "regs_of _ = (0, 0, 0, 0, 0, 0, 0, 0)"

fun list_of_regs :: "sha_regs \<Rightarrow> w32 list" where
  "list_of_regs (a, b, c, d, e, f, g, h) = [a, b, c, d, e, f, g, h]"

definition sha256_compress :: "8 word list \<Rightarrow> w32 list \<Rightarrow> w32 list" where
  "sha256_compress block hs =
     map2 (+) hs (list_of_regs (fold sha256_round (zip sha256_K (schedule 48 (block_words block))) (regs_of hs)))"

definition sha256_blocks :: "8 word list \<Rightarrow> 8 word list list" where
  "sha256_blocks m = map (\<lambda>i. take 64 (drop (64 * i) m)) [0..<length m div 64]"

definition sha256 :: "8 word list \<Rightarrow> w32 list" where
  "sha256 bs = fold sha256_compress (sha256_blocks (sha256_pad bs)) sha256_H0"

definition hex_word :: "w32 \<Rightarrow> string" where
  "hex_word w = map (\<lambda>i. ''0123456789abcdef'' ! unat (drop_bit (4 * (7 - i)) w AND 15)) [0..<8]"

definition sha256_hexdigest :: "string \<Rightarrow> string" where
  "sha256_hexdigest s = concat (map hex_word (sha256 (map of_char s)))"

definition get_cache_key :: "url \<Rightarrow> string \<Rightarrow> string" where
  "get_cache_key u h = sha256_hexdigest (u @ h)"

subsection \<open>The cache directory\<close>






section \<open>The validator (qa_validator.py)\<close>

text \<open>A test case is a dictionary with string keys, in insertion order.\<close>

type_synonym test_case = "(string \<times> pyval) list"

text \<open>
  The collaborators of \<open>validate_test_cases\<close>: the text \<open>json.dumps(..., indent=2)\<close> writes for
  a serializable value, the prompt template, and the model call \<open>llm.invoke(prompt).content\<close>,
  which returns the answer or raises.
\<close>

record validator_env =
  json_text :: "pyval \<Rightarrow> string"
  prompt_format :: "string \<Rightarrow> string \<Rightarrow> string"
  llm_invoke :: "string \<Rightarrow> exn + string"

definition json_dumps :: "(pyval \<Rightarrow> string) \<Rightarrow> pyval \<Rightarrow> exn + string" where
  "json_dumps text v = (if json_serializable v then Inr (text v) else Inl TypeError)"

text \<open>Only \<open>llm.invoke\<close> stands inside the \<open>try\<close>; \<open>json.dumps\<close> runs before it.\<close>

definition validate_test_cases :: "validator_env \<Rightarrow> test_case list \<Rightarrow> string \<Rightarrow> exn + string" where
  "validate_test_cases venv test_cases pom_code =
     (case json_dumps (json_text venv) (PyList (map PyDict test_cases)) of
        Inl e \<Rightarrow> Inl e
      | Inr test_cases_json \<Rightarrow>
          let prompt_text = prompt_format venv test_cases_json pom_code in
          (case llm_invoke venv prompt_text of
             Inr content \<Rightarrow> Inr content
           | Inl e \<Rightarrow> Inr ''Validation failed due to an error.''))"

section \<open>The publisher (repo_integrator.py)\<close>

text \<open>
  The environment of \<open>integrate_with_repo\<close>: the token, and for each git or file operation
  the exception it raises, if any. The events are what the call did, in order; the last one
  is the \<open>finally\<close> block that removes the temporary directory.
\<close>

record git_env =
  github_token :: "string option"
  clone_from :: "exn option"
  create_branch :: "exn option"
  add_file :: "string \<Rightarrow> string \<Rightarrow> exn option"
  commit_push :: "exn option"

datatype repo_event =
    Cloned
  | BranchCreated
  | FileAdded string string
  | Pushed
  | PrintedIntegrationError exn
  | CleanedUp

fun add_files :: "(string \<Rightarrow> string \<Rightarrow> exn option) \<Rightarrow> (string \<times> string) list \<Rightarrow> exn option \<times> repo_event list" where
  "add_files add [] = (None, [])"
| "add_files add ((file_path, content) # rest) =
     (case add file_path content of
        Some e \<Rightarrow> (Some e, [])
      | None \<Rightarrow> (case add_files add rest of (r, evs) \<Rightarrow> (r, FileAdded file_path content # evs)))"

definition integrate_try :: "git_env \<Rightarrow> (string \<times> string) list \<Rightarrow> (exn + unit) \<times> repo_event list" where
  "integrate_try genv files =
     (case clone_from genv of
        Some e \<Rightarrow> (Inl e, [])
      | None \<Rightarrow>
          (case create_branch genv of
             Some e \<Rightarrow> (Inl e, [Cloned])
           | None \<Rightarrow>
               (case add_files (add_file genv) files of
                  (Some e, evs) \<Rightarrow> (Inl e, [Cloned, BranchCreated] @ evs)
                | (None, evs) \<Rightarrow>
                    (case commit_push genv of
                       Some e \<Rightarrow> (Inl e, [Cloned, BranchCreated] @ evs)
                     | None \<Rightarrow> (Inr (), [Cloned, BranchCreated] @ evs @ [Pushed])))))"

definition integrate_with_repo ::
  "git_env \<Rightarrow> string option \<Rightarrow> (string \<times> string) list \<Rightarrow> (exn + unit) \<times> repo_event list" where
  "integrate_with_repo genv repo_url files =
     (if repo_url = None \<or> repo_url = Some [] \<or> files = [] then (Inl ValueError, [])
      else if github_token genv = None \<or> github_token genv = Some [] then (Inl ValueError, [])
      else
        (case integrate_try genv files of
           (Inl e, evs) \<Rightarrow> (Inl e, evs @ [PrintedIntegrationError e, CleanedUp])
         | (Inr u, evs) \<Rightarrow> (Inr u, evs @ [CleanedUp])))"

section \<open>The orchestrator (main.py)\<close>

subsection \<open>String helpers\<close>

text \<open>\<open>s.replace(old, new)\<close>, left to right without overlap, and \<open>s.strip(c)\<close>.\<close>

fun replace_from :: "string \<Rightarrow> string \<Rightarrow> string \<Rightarrow> string" where
  "replace_from old new [] = []"
| "replace_from old new (c # cs) =
     (if old \<noteq> [] \<and> take (length old) (c # cs) = old
      then new @ replace_from old new (drop (length old) (c # cs))
      else c # replace_from old new cs)"

definition py_replace :: "string \<Rightarrow> string \<Rightarrow> string \<Rightarrow> string" where
  "py_replace old new s =
     (if old = [] then new @ concat (map (\<lambda>c. c # new) s) else replace_from old new s)"

definition py_strip :: "char \<Rightarrow> string \<Rightarrow> string" where
  "py_strip c s = rev (dropWhile (\<lambda>x. x = c) (rev (dropWhile (\<lambda>x. x = c) s)))"

definition output_dir_of :: "url \<Rightarrow> string" where
  "output_dir_of start_url = ''outputs/'' @ py_replace ''/'' ''_'' (py_replace ''https://'' [] start_url)"

definition page_path_of :: "url \<Rightarrow> url \<Rightarrow> string" where
  "page_path_of start_url u =
     (let page_path = py_strip CHR ''/'' (py_replace start_url [] u)
      in if page_path = [] then ''home'' else page_path)"

definition safe_path_of :: "url \<Rightarrow> url \<Rightarrow> string" where
  "safe_path_of start_url u = py_replace ''/'' ''_'' (page_path_of start_url u)"

definition validation_path_of :: "url \<Rightarrow> url \<Rightarrow> string" where
  "validation_path_of start_url u =
     output_dir_of start_url @ ''/validation_feedback_'' @ safe_path_of start_url u @ ''.txt''"

definition pom_file_of :: "url \<Rightarrow> url \<Rightarrow> string" where
  "pom_file_of start_url u = ''pages/'' @ page_path_of start_url u @ ''.page.ts''"

definition test_file_of :: "url \<Rightarrow> url \<Rightarrow> string" where
  "test_file_of start_url u = ''tests/'' @ page_path_of start_url u @ ''.test.ts''"

subsection \<open>Collaborators, messages and the state of a run\<close>

text \<open>
  What \<open>analyze_page\<close> returns: a falsy value, a dictionary with the key \<open>error\<close>, or a
  dictionary read through \<open>get('testCases', [])\<close> and \<open>get('pomCode', '')\<close>.
\<close>

datatype analysis_result =
    NoResult
  | AnalysisError string
  | Analysis "test_case list" string

text \<open>
  The environment of a run. \<open>analyze_page\<close>, \<open>generate_test_code\<close> and \<open>generate_outputs\<close>
  are the functions of analyzer.py and generator.py, taken here by what they return or raise;
  \<open>makedirs\<close> and \<open>write_file\<close> are the file system, \<open>store_lib\<close> the client library of the
  store.
\<close>

record env =
  env_netloc :: "url \<Rightarrow> string option"
  env_arun :: "url \<Rightarrow> crawl_result option"
  store_lib :: client_lib
  env_db0 :: page_store
  env_origin :: string
  supabase_configured :: bool
  analyze_page :: "string \<Rightarrow> url \<Rightarrow> exn + analysis_result"
  generate_test_code :: "test_case list \<Rightarrow> string \<Rightarrow> url \<Rightarrow> exn + string"
  validator :: validator_env
  makedirs :: "string \<Rightarrow> exn option"
  write_file :: "string \<Rightarrow> string \<Rightarrow> exn option"
  generate_outputs :: "test_case list \<Rightarrow> string \<Rightarrow> exn option"
  REPO_URL :: "string option"
  git :: git_env

text \<open>The lines the run prints.\<close>

datatype message =
    NoUrlsCrawled
  | NoDataInDb
  | DataFoundInDb
  | NoHtmlContent url
  | AnalysisFailed url
  | AnalysisErrorFor url string
  | InvalidAnalysisFormat url
  | NoTestCode url
  | ValidationErrorFor url exn
  | OutputsErrorFor url exn
  | ProcessingErrorFor url exn
  | ItemNotProcessed
  | NoFilesGenerated
  | ProcessingCompleted url
  | IntegrationErrorFor exn

text \<open>What a run does besides filling \<open>files_to_add\<close>: the lines printed and the calls made to
  its collaborators, in order.\<close>

datatype event =
    Printed message
  | Analyzed url
  | TestCodeGenerated url
  | ValidationRequested url
  | FeedbackWritten string string
  | OutputsGenerated url
  | IntegrateCalled "(string \<times> string) list" "repo_event list"

record run_state =
  files_to_add :: "(string \<times> string) list"
  events :: "event list"

definition log :: "event list \<Rightarrow> run_state \<Rightarrow> run_state" where
  "log evs st = st\<lparr>events := events st @ evs\<rparr>"

subsection \<open>One URL\<close>

definition normalize_test_case :: "test_case \<Rightarrow> test_case" where
  "normalize_test_case tc =
     (let tc1 = (if ''preconditions'' \<notin> set (map fst tc)
                 then AList.update ''preconditions'' (PyStr ''No specific preconditions'') tc else tc)
      in if ''edgeCases'' \<notin> set (map fst tc1) then AList.update ''edgeCases'' (PyList []) tc1 else tc1)"

text \<open>Step 4, the inner \<open>try\<close>: the validator call, then the feedback file.\<close>

definition validation_step :: "env \<Rightarrow> url \<Rightarrow> url \<Rightarrow> test_case list \<Rightarrow> string \<Rightarrow> exn + string" where
  "validation_step e start_url u test_cases pom_code =
     (case validate_test_cases (validator e) test_cases pom_code of
        Inl x \<Rightarrow> Inl x
      | Inr validation_feedback \<Rightarrow>
          (case makedirs e (output_dir_of start_url) of
             Some x \<Rightarrow> Inl x
           | None \<Rightarrow>
               let text = (if validation_feedback = [] then ''Validation produced no feedback''
                           else validation_feedback)
               in (case write_file e (validation_path_of start_url u) text of
                     Some x \<Rightarrow> Inl x
                   | None \<Rightarrow> Inr text)))"

text \<open>The body of \<open>for url in crawled_urls\<close>. Each \<open>except\<close> and each \<open>continue\<close> of the source
  is a branch that hands the state on to the next URL.\<close>

definition process_url :: "env \<Rightarrow> url \<Rightarrow> page_store \<Rightarrow> run_state \<Rightarrow> url \<Rightarrow> run_state" where
  "process_url e start_url pages st u =
     (case get_page_from_db (store_lib e) pages u of
        None \<Rightarrow> log [Printed (ProcessingErrorFor u AttributeError)] st
      | Some query_result \<Rightarrow>
          if row_html query_result = [] then log [Printed (NoHtmlContent u)] st
          else
            (case analyze_page e (row_html query_result) u of
               Inl x \<Rightarrow> log [Analyzed u, Printed (ProcessingErrorFor u x)] st
             | Inr NoResult \<Rightarrow> log [Analyzed u, Printed (AnalysisFailed u)] st
             | Inr (AnalysisError msg) \<Rightarrow> log [Analyzed u, Printed (AnalysisErrorFor u msg)] st
             | Inr (Analysis tcs pom_code) \<Rightarrow>
                 if tcs = [] \<or> pom_code = [] then log [Analyzed u, Printed (InvalidAnalysisFormat u)] st
                 else
                   let test_cases = map normalize_test_case tcs in
                   (case generate_test_code e test_cases pom_code u of
                      Inl x \<Rightarrow> log [Analyzed u, TestCodeGenerated u, Printed (ProcessingErrorFor u x)] st
                    | Inr test_code \<Rightarrow>
                        if test_code = [] then log [Analyzed u, TestCodeGenerated u, Printed (NoTestCode u)] st
                        else
                          (case validation_step e start_url u test_cases pom_code of
                             Inl x \<Rightarrow>
                               log [Analyzed u, TestCodeGenerated u, ValidationRequested u,
                                    Printed (ValidationErrorFor u x)] st
                           | Inr feedback \<Rightarrow>
                               let st1 = log [Analyzed u, TestCodeGenerated u, ValidationRequested u,
                                              FeedbackWritten (validation_path_of start_url u) feedback]
                                           (st\<lparr>files_to_add :=
                                                 AList.update (test_file_of start_url u) test_code
                                                   (AList.update (pom_file_of start_url u) pom_code
                                                      (files_to_add st))\<rparr>)
                               in (case generate_outputs e test_cases (output_dir_of start_url) of
                                     Some x \<Rightarrow> log [OutputsGenerated u, Printed (OutputsErrorFor u x)] st1
                                   | None \<Rightarrow> log [OutputsGenerated u] st1)))))"

definition process_urls :: "env \<Rightarrow> url \<Rightarrow> page_store \<Rightarrow> run_state \<Rightarrow> url list \<Rightarrow> run_state" where
  "process_urls e start_url pages st urls = fold (\<lambda>u s. process_url e start_url pages s u) urls st"

text \<open>The loop variable of \<open>for url in crawled_urls\<close> need not be a string. For an item
  that is not one, \<open>get_page_from_db\<close> yields \<open>None\<close> or a row; \<open>.get\<close> on \<open>None\<close> raises
  AttributeError, a row without HTML is reported, and for a row with HTML \<open>analyze_page\<close>
  raises ValueError before it does anything else. In each case one line is printed, no
  generator or validator is called, and no file is registered.\<close>

definition process_item :: "env \<Rightarrow> url \<Rightarrow> page_store \<Rightarrow> run_state \<Rightarrow> loop_item \<Rightarrow> run_state" where
  "process_item e start_url pages st item =
     (case item of
        Url u \<Rightarrow> process_url e start_url pages st u
      | Other \<Rightarrow> log [Printed ItemNotProcessed] st)"

definition process_items :: "env \<Rightarrow> url \<Rightarrow> page_store \<Rightarrow> run_state \<Rightarrow> loop_item list \<Rightarrow> run_state" where
  "process_items e start_url pages st items = fold (\<lambda>i s. process_item e start_url pages s i) items st"

text \<open>On items that all are strings the loop is \<open>process_urls\<close>.\<close>

subsection \<open>The whole run\<close>

text \<open>What the loop iterates over. \<open>None\<close>: the crawl returned nothing and the store has no
  record of the start URL, the run returns. Otherwise the list the crawl returned or, when it
  returned nothing, what \<open>get_page_urls_by_origin\<close> returned: the response object or
  \<open>None\<close>.\<close>

datatype loop_source = CrawledList "url list" | StoreAnswer "response option"

definition pipeline_source :: "client_lib \<Rightarrow> page_store \<Rightarrow> url \<Rightarrow> url list \<Rightarrow> loop_source option" where
  "pipeline_source lib pages start_url crawled_urls =
     (if crawled_urls \<noteq> [] then Some (CrawledList crawled_urls)
      else (case get_page_from_db lib pages start_url of
              None \<Rightarrow> None
            | Some query_result \<Rightarrow>
                Some (StoreAnswer (get_page_urls_by_origin lib pages (row_origin_id query_result)))))"

text \<open>The items the \<open>for\<close> statement draws from its source; iterating \<open>None\<close>, or a response
  that cannot be iterated, raises TypeError.\<close>

definition iterate :: "client_lib \<Rightarrow> loop_source \<Rightarrow> exn + loop_item list" where
  "iterate lib src =
     (case src of
        CrawledList urls \<Rightarrow> Inr (map Url urls)
      | StoreAnswer None \<Rightarrow> Inl TypeError
      | StoreAnswer (Some result) \<Rightarrow>
          (case response_iter lib result of None \<Rightarrow> Inl TypeError | Some items \<Rightarrow> Inr items))"

definition pipeline_items ::
  "client_lib \<Rightarrow> page_store \<Rightarrow> url \<Rightarrow> url list \<Rightarrow> (exn + loop_item list) option" where
  "pipeline_items lib pages start_url crawled_urls =
     map_option (iterate lib) (pipeline_source lib pages start_url crawled_urls)"

text \<open>Step 7. The \<open>try\<close> around \<open>integrate_with_repo\<close> catches what it raises.\<close>

definition publish :: "env \<Rightarrow> url \<Rightarrow> run_state \<Rightarrow> run_state" where
  "publish e start_url st =
     (if files_to_add st = [] then log [Printed NoFilesGenerated] st
      else
        (case integrate_with_repo (git e) (REPO_URL e) (files_to_add st) of
           (Inr _, revs) \<Rightarrow>
             log [IntegrateCalled (files_to_add st) revs, Printed (ProcessingCompleted start_url)] st
         | (Inl x, revs) \<Rightarrow>
             log [IntegrateCalled (files_to_add st) revs, Printed (IntegrationErrorFor x)] st))"

text \<open>The loop over the items, from the empty \<open>files_to_add\<close>.\<close>

definition collect :: "env \<Rightarrow> url \<Rightarrow> crawl_state \<Rightarrow> loop_item list \<Rightarrow> run_state" where
  "collect e start_url cs items =
     process_items e start_url (db cs)
       \<lparr>files_to_add = [],
        events = (if crawled_pages cs = [] then [Printed NoUrlsCrawled, Printed DataFoundInDb] else [])\<rparr>
       items"

text \<open>\<open>os.makedirs\<close> runs before the \<open>for\<close> statement: what it raises leaves the run before
  the TypeError of a source that cannot be iterated.\<close>

definition run_pipeline :: "env \<Rightarrow> url \<Rightarrow> crawl_state \<Rightarrow> exn + run_state" where
  "run_pipeline e start_url cs =
     (case pipeline_items (store_lib e) (db cs) start_url (crawled_pages cs) of
        None \<Rightarrow> Inr \<lparr>files_to_add = [], events = [Printed NoUrlsCrawled, Printed NoDataInDb]\<rparr>
      | Some source \<Rightarrow>
          (case makedirs e (output_dir_of start_url) of
             Some x \<Rightarrow> Inl x
           | None \<Rightarrow>
               (case source of
                  Inl x \<Rightarrow> Inl x
                | Inr items \<Rightarrow> Inr (publish e start_url (collect e start_url cs items)))))"

text \<open>\<open>None\<close>: the crawl never returns. \<open>Some (Inl x)\<close>: the run raises \<open>x\<close>.
  \<open>Some (Inr st)\<close>: the run returns, in state \<open>st\<close>.\<close>

definition process_website :: "env \<Rightarrow> url \<Rightarrow> (exn + run_state) option" where
  "process_website e start_url =
     (if \<not> supabase_configured e then Some (Inl ValueError)
      else
        (case crawl_website (env_netloc e) (env_arun e) (store_lib e) (env_db0 e) (env_origin e) start_url of
           None \<Rightarrow> None
         | Some cs \<Rightarrow> Some (run_pipeline e start_url cs)))"

subsection \<open>Reading a run\<close>

text \<open>The calls of \<open>integrate_with_repo\<close> among the events of a run: the file map handed
  over by each call, in order.\<close>

fun publish_calls :: "event list \<Rightarrow> (string \<times> string) list list" where
  "publish_calls [] = []"
| "publish_calls (IntegrateCalled files revs # evs) = files # publish_calls evs"
| "publish_calls (ev # evs) = publish_calls evs"

text \<open>Every stage of a URL up to the registration of its files succeeds, with page-object
  code \<open>pom_code\<close> and test code \<open>test_code\<close>.\<close>

definition stages_succeed :: "env \<Rightarrow> url \<Rightarrow> page_store \<Rightarrow> url \<Rightarrow> string \<Rightarrow> string \<Rightarrow> bool" where
  "stages_succeed e start_url pages u pom_code test_code \<longleftrightarrow>
     (\<exists>q tcs feedback.
        get_page_from_db (store_lib e) pages u = Some q \<and> row_html q \<noteq> [] \<and>
        analyze_page e (row_html q) u = Inr (Analysis tcs pom_code) \<and> tcs \<noteq> [] \<and> pom_code \<noteq> [] \<and>
        generate_test_code e (map normalize_test_case tcs) pom_code u = Inr test_code \<and>
        test_code \<noteq> [] \<and>
        validation_step e start_url u (map normalize_test_case tcs) pom_code = Inr feedback)"

section \<open>Concrete sites and environments\<close>

text \<open>The network location of an absolute URL \<open>scheme://host/path\<close>: the text between the
  double slash and the next slash. As in \<open>urllib.parse\<close>, a location with one of the brackets
  \<open>[\<close> and \<open>]\<close> but not the other is refused (ValueError: Invalid IPv6 URL).\<close>

definition netloc_simple :: "url \<Rightarrow> string option" where
  "netloc_simple u =
     (let loc = takeWhile (\<lambda>c. c \<noteq> CHR ''/'') (drop 2 (dropWhile (\<lambda>c. c \<noteq> CHR ''/'') u))
      in if (CHR ''['' \<in> set loc) \<noteq> (CHR '']'' \<in> set loc) then None else Some loc)"

text \<open>A client whose queries never raise, whose responses have as length the number of their
  rows, and whose responses yield two items that are not strings when iterated. A second
  client whose responses have no length.\<close>

definition client_simple :: client_lib where
  "client_simple = \<lparr>execute_raises = (\<lambda>call. False),
                     response_len = (\<lambda>result. Some (length (data result))),
                     response_iter = (\<lambda>result. Some [Other, Other])\<rparr>"

definition client_no_len :: client_lib where
  "client_no_len = client_simple\<lparr>response_len := (\<lambda>result. None)\<rparr>"

text \<open>A site of two pages that link to each other; the first also links to another domain.\<close>

definition site_a :: "url \<Rightarrow> crawl_result option" where
  "site_a u = Some \<lparr>success = True, html = ''<html/>'', title = Some ''page'',
     internal_links = Some
       (if u = ''https://x.test/'' then [Some ''https://x.test/about'', Some ''https://y.test/'']
        else if u = ''https://x.test/about'' then [Some ''https://x.test/'']
        else [])\<rparr>"

text \<open>A site on which two pages link to the same third page.\<close>

definition site_diamond :: "url \<Rightarrow> crawl_result option" where
  "site_diamond u = Some \<lparr>success = True, html = ''<html/>'', title = Some ''page'',
     internal_links = Some
       (if u = ''https://x.test/'' then [Some ''https://x.test/a'', Some ''https://x.test/b'']
        else if u = ''https://x.test/a'' then [Some ''https://x.test/c'']
        else if u = ''https://x.test/b'' then [Some ''https://x.test/c'']
        else [])\<rparr>"

text \<open>A site whose start page carries, in front of a link to its second page, a link that
  \<open>urlparse\<close> refuses.\<close>

definition site_bad_link :: "url \<Rightarrow> crawl_result option" where
  "site_bad_link u = Some \<lparr>success = True, html = ''<html/>'', title = Some ''page'',
     internal_links = Some
       (if u = ''https://x.test/'' then [Some ''https://[x.test/bad'', Some ''https://x.test/about'']
        else [])\<rparr>"

text \<open>A store that already holds the page \<open>https://x.test/about\<close>, from an earlier run.\<close>

definition db_about :: page_store where
  "db_about = [\<lparr>row_url = ''https://x.test/about'', row_html = ''<html/>'', row_title = ''page'',
                row_origin_id = ''earlier''\<rparr>]"

text \<open>A site of one page without links.\<close>

definition site_single :: "url \<Rightarrow> crawl_result option" where
  "site_single u = Some \<lparr>success = True, html = ''<html/>'', title = Some ''page'',
     internal_links = Some []\<rparr>"

text \<open>An environment in which every collaborator succeeds, and three variants: the push of
  the publisher fails, the feedback file cannot be written, the analysis yields a test case
  that holds a set.\<close>

definition validator_ok :: validator_env where
  "validator_ok = \<lparr>json_text = (\<lambda>v. ''[]''), prompt_format = (\<lambda>j p. j @ p),
                   llm_invoke = (\<lambda>p. Inr ''looks fine'')\<rparr>"

definition git_ok :: git_env where
  "git_ok = \<lparr>github_token = Some ''token'', clone_from = None, create_branch = None,
             add_file = (\<lambda>p c. None), commit_push = None\<rparr>"

definition env_ok :: env where
  "env_ok = \<lparr>env_netloc = netloc_simple, env_arun = site_single, store_lib = client_simple,
     env_db0 = [], env_origin = ''run'',
     supabase_configured = True,
     analyze_page = (\<lambda>h u. Inr (Analysis [[(''title'', PyStr ''loads'')]] ''class HomePage {}'')),
     generate_test_code = (\<lambda>tcs pom u. Inr ''test()''),
     validator = validator_ok,
     makedirs = (\<lambda>p. None),
     write_file = (\<lambda>p c. None),
     generate_outputs = (\<lambda>tcs d. None),
     REPO_URL = Some ''https://github.com/org/repo'',
     git = git_ok\<rparr>"

definition env_push_fails :: env where
  "env_push_fails = env_ok\<lparr>git := git_ok\<lparr>commit_push := Some GitCommandError\<rparr>\<rparr>"

definition env_write_fails :: env where
  "env_write_fails = env_ok\<lparr>write_file := (\<lambda>p c. Some OSError)\<rparr>"

definition test_case_with_set :: test_case where
  "test_case_with_set = [(''title'', PyStr ''loads''), (''edgeCases'', PySet [PyStr ''empty input''])]"

definition validator_llm_down :: validator_env where
  "validator_llm_down = validator_ok\<lparr>llm_invoke := (\<lambda>p. Inl (OtherException ''timeout''))\<rparr>"

definition env_llm_down :: env where
  "env_llm_down = env_ok\<lparr>validator := validator_llm_down\<rparr>"

text \<open>A store of two pages, and an environment whose analysis raises for the first of them.\<close>

definition db_two :: page_store where
  "db_two = [\<lparr>row_url = ''https://x.test/bad'', row_html = ''<html/>'', row_title = ''bad'', row_origin_id = ''run''\<rparr>,
             \<lparr>row_url = ''https://x.test/good'', row_html = ''<html/>'', row_title = ''good'', row_origin_id = ''run''\<rparr>]"

definition env_bad_analysis :: env where
  "env_bad_analysis = env_ok\<lparr>analyze_page :=
     (\<lambda>h u. if u = ''https://x.test/bad'' then Inl ValueError
             else Inr (Analysis [[(''title'', PyStr ''loads'')]] ''class HomePage {}''))\<rparr>"

text \<open>The crawl of \<open>site_a\<close> over the store that holds \<open>https://x.test/about\<close>.\<close>

definition env_about :: env where
  "env_about = env_ok\<lparr>env_arun := site_a, env_db0 := db_about\<rparr>"

text \<open>The crawl of \<open>site_single\<close> from \<open>https://x.test/\<close> with an empty store: the state it
  ends in, and what the pipeline makes of the one page under \<open>env_ok\<close>.\<close>

definition db_single :: page_store where
  "db_single = [\<lparr>row_url = ''https://x.test/'', row_html = ''<html/>'', row_title = ''page'', row_origin_id = ''run''\<rparr>]"

definition cs_single :: crawl_state where
  "cs_single = \<lparr>visited = {''https://x.test/''}, to_crawl = [], crawled_pages = [''https://x.test/''],
       db = db_single, fetch_log = [''https://x.test/'']\<rparr>"

definition files_home :: "(string \<times> string) list" where
  "files_home = [(''pages/home.page.ts'', ''class HomePage {}''), (''tests/home.test.ts'', ''test()'')]"

definition events_home :: "event list" where
  "events_home = [Analyzed ''https://x.test/'', TestCodeGenerated ''https://x.test/'',
     ValidationRequested ''https://x.test/'',
     FeedbackWritten ''outputs/x.test_/validation_feedback_home.txt'' ''looks fine'',
     OutputsGenerated ''https://x.test/'']"

section \<open>The crawl: breadth-first search of the start URL's domain\<close>

lemma reachable_start: "U \<in> reachable_urls nl ar U"
  by (simp add: reachable_urls_def)

lemma reachable_step:
  "v \<in> reachable_urls nl ar U \<Longrightarrow> (v, w) \<in> link_edges nl ar U \<Longrightarrow> w \<in> reachable_urls nl ar U"
  by (auto simp: reachable_urls_def intro: rtrancl_into_rtrancl)

lemma reachable_relpow:
  "v \<in> reachable_urls nl ar U \<longleftrightarrow> (\<exists>n. (U, v) \<in> link_edges nl ar U ^^ n)"
  by (simp add: reachable_urls_def rtrancl_power)

lemma hops_path:
  "v \<in> reachable_urls nl ar U \<Longrightarrow> (U, v) \<in> link_edges nl ar U ^^ hops nl ar U v"
  unfolding hops_def reachable_relpow by (erule exE) (rule LeastI)

lemma hops_le: "(U, v) \<in> link_edges nl ar U ^^ n \<Longrightarrow> hops nl ar U v \<le> n"
  unfolding hops_def by (rule Least_le)

lemma hops_start: "hops nl ar U U = 0"
  using hops_le[where n=0 and U=U and v=U and nl=nl and ar=ar] by simp

lemma hops_zero: "v \<in> reachable_urls nl ar U \<Longrightarrow> hops nl ar U v = 0 \<Longrightarrow> v = U"
  using hops_path[of v nl ar U] by simp

lemma hops_succ:
  assumes "v \<in> reachable_urls nl ar U" "(v, w) \<in> link_edges nl ar U"
  shows "hops nl ar U w \<le> Suc (hops nl ar U v)"
proof -
  have "(U, w) \<in> link_edges nl ar U ^^ Suc (hops nl ar U v)"
    using hops_path[OF assms(1)] assms(2) by auto
  then show ?thesis by (rule hops_le)
qed

lemma hops_pred:
  assumes "v \<in> reachable_urls nl ar U" "hops nl ar U v = Suc n"
  shows "\<exists>p. p \<in> reachable_urls nl ar U \<and> hops nl ar U p = n \<and> (p, v) \<in> link_edges nl ar U"
proof -
  have "(U, v) \<in> link_edges nl ar U ^^ Suc n"
    using hops_path[OF assms(1)] assms(2) by simp
  then obtain p where p: "(U, p) \<in> link_edges nl ar U ^^ n" "(p, v) \<in> link_edges nl ar U"
    by auto
  have pr: "p \<in> reachable_urls nl ar U"
    using p(1) reachable_relpow by blast
  have "hops nl ar U p \<le> n" using p(1) by (rule hops_le)
  moreover have "Suc n \<le> Suc (hops nl ar U p)"
    using hops_succ[OF pr p(2)] assms(2) by simp
  ultimately have "hops nl ar U p = n" by simp
  with pr p(2) show ?thesis by blast
qed

lemma enqueue_links_filter:
  "\<forall>l \<in> set links. \<exists>h. l = Some h \<and> nl h \<noteq> None \<Longrightarrow>
   enqueue_links nl d vis q links = (q @ filter (\<lambda>h. nl h = Some d \<and> h \<notin> vis) (hrefs links), None)"
  by (induction links arbitrary: q) (auto simp: enqueue_def hrefs_def)

lemma enqueue_links_stop:
  "\<forall>l \<in> set good. \<exists>h. l = Some h \<and> nl h \<noteq> None \<Longrightarrow> enqueue nl d vis [] bad = Inl x \<Longrightarrow>
   enqueue_links nl d vis q (good @ bad # rest) =
     (q @ filter (\<lambda>h. nl h = Some d \<and> h \<notin> vis) (hrefs good), Some x)"
  by (induction good arbitrary: q) (auto simp: enqueue_def hrefs_def split: option.splits)

lemma enqueue_links_prefix:
  "\<exists>more. fst (enqueue_links nl d vis q links) = q @ more"
proof (induction links arbitrary: q)
  case Nil
  then show ?case by simp
next
  case (Cons l links)
  show ?case
  proof (cases "enqueue nl d vis q l")
    case (Inl x)
    then show ?thesis by simp
  next
    case (Inr q')
    then obtain m where "q' = q @ m"
      by (auto simp: enqueue_def split: option.splits if_splits)
    moreover obtain more where "fst (enqueue_links nl d vis q' links) = q' @ more"
      using Cons.IH by blast
    ultimately show ?thesis using Inr by simp
  qed
qed

lemma isCrawled_rows:
  "select_eq_url d u = select_eq_url d' u \<Longrightarrow> isCrawled lib d u = isCrawled lib d' u"
  by (simp add: isCrawled_def)

lemma select_insert:
  "v \<noteq> u \<Longrightarrow> select_eq_url (insert_page_to_db lib d u h t origin) v = select_eq_url d v"
  by (simp add: insert_page_to_db_def select_eq_url_def split: option.splits)

lemma iteration_empty:
  "to_crawl s = [] \<Longrightarrow> crawl_iteration nl ar lib U origin s = s"
  by (simp add: crawl_iteration_def)

lemma iteration_dup:
  "to_crawl s = u # rest \<Longrightarrow> u \<in> visited s \<Longrightarrow>
   crawl_iteration nl ar lib U origin s = s\<lparr>to_crawl := rest\<rparr>"
  by (simp add: crawl_iteration_def)

lemma iteration_skip:
  "to_crawl s = u # rest \<Longrightarrow> u \<notin> visited s \<Longrightarrow> isCrawled lib (db s) u = Some True \<Longrightarrow>
   crawl_iteration nl ar lib U origin s = s\<lparr>to_crawl := rest, visited := insert u (visited s)\<rparr>"
  by (simp add: crawl_iteration_def)

lemma iteration_fetch:
  assumes "to_crawl s = u # rest" "u \<notin> visited s" "isCrawled lib (db s) u \<noteq> Some True"
    and "ar u = Some r" "success r" "title r = Some t"
    and "internal_links r = Some links" "\<forall>l \<in> set links. \<exists>h. l = Some h \<and> nl h \<noteq> None"
  shows "crawl_iteration nl ar lib U origin s =
     s\<lparr>to_crawl := rest @ filter (\<lambda>h. h \<notin> insert u (visited s)) (same_domain_links nl ar U u),
       visited := insert u (visited s),
       crawled_pages := crawled_pages s @ [u],
       db := insert_page_to_db lib (db s) u (html r) t origin,
       fetch_log := fetch_log s @ [u]\<rparr>"
proof (cases "nl U")
  case None
  then show ?thesis
    using assms by (simp add: crawl_iteration_def same_domain_links_def Let_def)
next
  case (Some d)
  then show ?thesis
    using assms(1-7)
    by (simp add: crawl_iteration_def same_domain_links_def Let_def
        enqueue_links_filter[OF assms(8)] conj_commute)
qed

lemma iteration_visited:
  "to_crawl s = u # rest \<Longrightarrow> visited (crawl_iteration nl ar lib U origin s) = insert u (visited s)"
  by (auto simp: crawl_iteration_def Let_def split: option.splits)

lemma iteration_queue:
  "to_crawl s = u # rest \<Longrightarrow> \<exists>more. to_crawl (crawl_iteration nl ar lib U origin s) = rest @ more"
  using enqueue_links_prefix[of nl _ "insert u (visited s)" rest]
  by (auto simp: crawl_iteration_def Let_def split: option.splits)

lemma crawl_inv_init: "crawl_inv nl ar db0 U (crawl_init db0 U)"
  by (simp add: crawl_inv_def crawl_init_def reachable_start)

lemma crawl_inv_step:
  assumes ok: "fetch_ok nl ar lib db0 U" and lk: "links_ok nl ar U" and inv: "crawl_inv nl ar db0 U s"
  shows "crawl_inv nl ar db0 U (crawl_iteration nl ar lib U origin s)"
proof (cases "to_crawl s")
  case Nil
  then show ?thesis using inv by (simp add: iteration_empty)
next
  case (Cons u rest)
  show ?thesis
  proof (cases "u \<in> visited s")
    case True
    show ?thesis
      using inv True Cons unfolding iteration_dup[OF Cons True] crawl_inv_def
      by auto
  next
    case False
    have ur: "u \<in> reachable_urls nl ar U"
      using inv Cons by (simp add: crawl_inv_def)
    have "select_eq_url (db s) u = select_eq_url db0 u"
      using inv False by (simp add: crawl_inv_def)
    then have nc: "isCrawled lib (db s) u \<noteq> Some True"
      using ok ur isCrawled_rows[of "db s" u db0 lib] by (simp add: fetch_ok_def)
    obtain r t where r: "ar u = Some r" "success r" "title r = Some t"
      using ok ur by (auto simp: fetch_ok_def)
    obtain links where l: "internal_links r = Some links"
        "\<forall>l \<in> set links. \<exists>h. l = Some h \<and> nl h \<noteq> None"
      using lk ur r(1) unfolding links_ok_def by blast
    have links: "\<And>y. (u, y) \<in> link_edges nl ar U \<longleftrightarrow> y \<in> set (same_domain_links nl ar U u)"
      by (simp add: link_edges_def)
    have new: "\<And>y. y \<in> set (same_domain_links nl ar U u) \<Longrightarrow> y \<in> reachable_urls nl ar U"
      using reachable_step[OF ur] links by blast
    show ?thesis
      unfolding iteration_fetch[where ar=ar, OF Cons False nc r l] crawl_inv_def
      using inv Cons False ur new links
      by (auto simp: crawl_inv_def select_insert)
  qed
qed

lemma split_append:
  "a @ b = xs @ w # ys \<Longrightarrow> (\<exists>ys'. a = xs @ w # ys') \<or> (\<exists>zs. xs = a @ zs)"
  by (induction a arbitrary: xs) (auto simp: Cons_eq_append_conv)

lemma level_inv_init: "level_inv nl ar U (crawl_init db0 U) 0"
  by (auto simp: level_inv_def crawl_init_def hops_start Cons_eq_append_conv)

text \<open>Every unvisited URL of the first level that is not yet complete waits in the queue.\<close>

lemma frontier_queued:
  assumes inv: "crawl_inv nl ar db0 U s"
    and below: "\<forall>x \<in> reachable_urls nl ar U. hops nl ar U x < k \<longrightarrow> x \<in> visited s"
    and x: "x \<in> reachable_urls nl ar U" "hops nl ar U x = k" "x \<notin> visited s"
  shows "x \<in> set (to_crawl s)"
proof (cases k)
  case 0
  then have "x = U" using x hops_zero by blast
  then show ?thesis using inv x(3) by (auto simp: crawl_inv_def)
next
  case (Suc n)
  then obtain p where p: "p \<in> reachable_urls nl ar U" "hops nl ar U p = n" "(p, x) \<in> link_edges nl ar U"
    using hops_pred[OF x(1)] x(2) by blast
  then have "p \<in> visited s" using below Suc by auto
  then show ?thesis using inv p(3) x(3) by (auto simp: crawl_inv_def)
qed

lemma level_inv_dup:
  assumes lev: "level_inv nl ar U s k" and q: "to_crawl s = u # rest" and v: "u \<in> visited s"
  shows "level_inv nl ar U (s\<lparr>to_crawl := rest\<rparr>) k"
proof -
  have "x \<in> set xs"
    if "rest = xs @ w # ys" "w \<notin> visited s" "hops nl ar U w = Suc k"
      "x \<in> reachable_urls nl ar U" "hops nl ar U x = k" "x \<notin> visited s" for xs w ys x
  proof -
    have "to_crawl s = (u # xs) @ w # ys" using q that(1) by simp
    then have "x \<in> set (u # xs)" using lev that unfolding level_inv_def by blast
    then show ?thesis using v that(6) by auto
  qed
  then show ?thesis using lev q unfolding level_inv_def by auto
qed

lemma level_inv_fetch:
  assumes inv: "crawl_inv nl ar db0 U s" and lev: "level_inv nl ar U s k"
    and q: "to_crawl s = u # rest" and v: "u \<notin> visited s"
    and s': "to_crawl s' = rest @ filter (\<lambda>h. h \<notin> insert u (visited s)) (same_domain_links nl ar U u)"
      "visited s' = insert u (visited s)" "fetch_log s' = fetch_log s @ [u]"
  shows "\<exists>k'. level_inv nl ar U s' k'"
proof -
  let ?h = "hops nl ar U" and ?R = "reachable_urls nl ar U"
  have ur: "u \<in> ?R" using inv q by (simp add: crawl_inv_def)
  have log: "set (fetch_log s) = visited s" using inv by (simp add: crawl_inv_def)
  have L1: "\<forall>x \<in> visited s. ?h x \<le> k"
    and L2: "\<forall>x \<in> ?R. ?h x < k \<longrightarrow> x \<in> visited s"
    and L3: "\<forall>q \<in> set (to_crawl s). ?h q \<le> Suc k"
    and L4: "\<And>xs w ys x. to_crawl s = xs @ w # ys \<Longrightarrow> w \<notin> visited s \<Longrightarrow> ?h w = Suc k \<Longrightarrow>
              x \<in> ?R \<Longrightarrow> ?h x = k \<Longrightarrow> x \<notin> visited s \<Longrightarrow> x \<in> set xs"
    and L5: "sorted (map ?h (fetch_log s))"
    using lev unfolding level_inv_def by blast+
  have new: "?h y \<le> Suc (?h u)" if "y \<in> set (same_domain_links nl ar U u)" for y
  proof -
    have "(u, y) \<in> link_edges nl ar U"
      using that by (simp add: link_edges_def)
    then show ?thesis using hops_succ[OF ur] by blast
  qed
  have lo: "k \<le> ?h u" using L2 ur v by (meson not_le)
  have hi: "?h u \<le> Suc k" using L3 q by simp
  consider (same) "?h u = k" | (deeper) "?h u = Suc k" using lo hi by linarith
  then show ?thesis
  proof cases
    case same
    have c4: "x \<in> set xs"
      if e: "to_crawl s' = xs @ w # ys" and w: "w \<notin> visited s'" "?h w = Suc k"
        and x: "x \<in> ?R" "?h x = k" "x \<notin> visited s'" for xs w ys x
    proof -
      have xq: "x \<in> set rest"
        using frontier_queued[OF inv L2 x(1,2)] x(3) q s'(2) by auto
      from e s'(1) consider
        (left) ys' where "rest = xs @ w # ys'"
        | (right) zs where "xs = rest @ zs"
        using split_append by metis
      then show ?thesis
      proof cases
        case left
        then have "to_crawl s = (u # xs) @ w # ys'" using q by simp
        then have "x \<in> set (u # xs)" using L4 w x s'(2) by blast
        then show ?thesis using x(3) s'(2) by auto
      next
        case right
        then show ?thesis using xq by simp
      qed
    qed
    have "level_inv nl ar U s' k"
      unfolding level_inv_def
    proof (intro conjI)
      show "\<forall>x \<in> visited s'. ?h x \<le> k" using L1 same s'(2) by auto
      show "\<forall>x \<in> ?R. ?h x < k \<longrightarrow> x \<in> visited s'" using L2 s'(2) by auto
      show "\<forall>q \<in> set (to_crawl s'). ?h q \<le> Suc k"
        using L3 q s'(1) new same by auto
      show "\<forall>xs w ys. to_crawl s' = xs @ w # ys \<longrightarrow> w \<notin> visited s' \<longrightarrow> ?h w = Suc k \<longrightarrow>
        (\<forall>x \<in> ?R. ?h x = k \<longrightarrow> x \<notin> visited s' \<longrightarrow> x \<in> set xs)"
        using c4 by blast
      show "sorted (map ?h (fetch_log s'))"
        using L5 L1 log same s'(3) by (auto simp: sorted_append)
    qed
    then show ?thesis ..
  next
    case deeper
    have full: "x \<in> visited s" if "x \<in> ?R" "?h x = k" for x
    proof (rule ccontr)
      assume "x \<notin> visited s"
      then have "x \<in> set []" using L4[of "[]" u rest x] q v deeper that by simp
      then show False by simp
    qed
    have L2': "\<forall>x \<in> ?R. ?h x < Suc k \<longrightarrow> x \<in> visited s"
      using L2 full by (auto simp: less_Suc_eq)
    have c4: "x \<in> set xs"
      if e: "to_crawl s' = xs @ w # ys" and w: "w \<notin> visited s'" "?h w = Suc (Suc k)"
        and x: "x \<in> ?R" "?h x = Suc k" "x \<notin> visited s'" for xs w ys x
    proof -
      have xq: "x \<in> set rest"
        using frontier_queued[OF inv L2' x(1,2)] x(3) q s'(2) by auto
      have wr: "w \<notin> set rest" using L3 q w(2) by auto
      from e s'(1) consider
        (left) ys' where "rest = xs @ w # ys'"
        | (right) zs where "xs = rest @ zs"
        using split_append by metis
      then show ?thesis
      proof cases
        case left
        then have "w \<in> set rest" by simp
        then show ?thesis using wr by simp
      next
        case right
        then show ?thesis using xq by simp
      qed
    qed
    have "level_inv nl ar U s' (Suc k)"
      unfolding level_inv_def
    proof (intro conjI)
      show "\<forall>x \<in> visited s'. ?h x \<le> Suc k" using L1 deeper s'(2) by auto
      show "\<forall>x \<in> ?R. ?h x < Suc k \<longrightarrow> x \<in> visited s'" using L2' s'(2) by auto
      show "\<forall>q \<in> set (to_crawl s'). ?h q \<le> Suc (Suc k)"
        using L3 q s'(1) new deeper by auto
      show "\<forall>xs w ys. to_crawl s' = xs @ w # ys \<longrightarrow> w \<notin> visited s' \<longrightarrow> ?h w = Suc (Suc k) \<longrightarrow>
        (\<forall>x \<in> ?R. ?h x = Suc k \<longrightarrow> x \<notin> visited s' \<longrightarrow> x \<in> set xs)"
        using c4 by blast
      show "sorted (map ?h (fetch_log s'))"
        using L5 L1 log deeper s'(3) by (auto simp: sorted_append)
    qed
    then show ?thesis ..
  qed
qed

lemma level_inv_step:
  assumes ok: "fetch_ok nl ar lib db0 U" and lk: "links_ok nl ar U" and inv: "crawl_inv nl ar db0 U s"
    and lev: "level_inv nl ar U s k"
  shows "\<exists>k'. level_inv nl ar U (crawl_iteration nl ar lib U origin s) k'"
proof (cases "to_crawl s")
  case Nil
  then show ?thesis using lev by (auto simp: iteration_empty)
next
  case (Cons u rest)
  show ?thesis
  proof (cases "u \<in> visited s")
    case True
    show ?thesis
      unfolding iteration_dup[OF Cons True] using level_inv_dup[OF lev Cons True] ..
  next
    case False
    have ur: "u \<in> reachable_urls nl ar U"
      using inv Cons by (simp add: crawl_inv_def)
    have "select_eq_url (db s) u = select_eq_url db0 u"
      using inv False by (simp add: crawl_inv_def)
    then have nc: "isCrawled lib (db s) u \<noteq> Some True"
      using ok ur isCrawled_rows[of "db s" u db0 lib] by (simp add: fetch_ok_def)
    obtain r t where r: "ar u = Some r" "success r" "title r = Some t"
      using ok ur by (auto simp: fetch_ok_def)
    obtain links where l: "internal_links r = Some links"
        "\<forall>l \<in> set links. \<exists>h. l = Some h \<and> nl h \<noteq> None"
      using lk ur r(1) unfolding links_ok_def by blast
    show ?thesis
      by (rule level_inv_fetch[OF inv lev Cons False])
        (simp_all add: iteration_fetch[where ar=ar, OF Cons False nc r l])
  qed
qed

lemma crawl_after_Suc:
  "crawl_after nl ar lib db0 origin U (Suc n) = crawl_iteration nl ar lib U origin (crawl_after nl ar lib db0 origin U n)"
  by (simp add: crawl_after_def)

lemma crawl_after_add:
  "((crawl_iteration nl ar lib U origin) ^^ m) (crawl_after nl ar lib db0 origin U n) = crawl_after nl ar lib db0 origin U (m + n)"
  by (simp add: crawl_after_def funpow_add)

lemma inv_after:
  assumes ok: "fetch_ok nl ar lib db0 U" and lk: "links_ok nl ar U"
  shows "crawl_inv nl ar db0 U (crawl_after nl ar lib db0 origin U n) \<and>
         (\<exists>k. level_inv nl ar U (crawl_after nl ar lib db0 origin U n) k)"
proof (induction n)
  case 0
  have "level_inv nl ar U (crawl_init db0 U) 0" by (rule level_inv_init)
  then have "\<exists>k. level_inv nl ar U (crawl_init db0 U) k" ..
  then show ?case
    using crawl_inv_init[of nl ar db0 U] by (simp add: crawl_after_def)
next
  case (Suc n)
  then show ?case
    unfolding crawl_after_Suc using crawl_inv_step[OF ok lk] level_inv_step[OF ok lk] by blast
qed

lemma queued_visited:
  "to_crawl s = xs @ q # ys \<Longrightarrow> q \<in> visited (((crawl_iteration nl ar lib U origin) ^^ Suc (length xs)) s)"
proof (induction xs arbitrary: s ys)
  case Nil
  then show ?case
    using iteration_visited[where s=s and u=q and rest=ys and nl=nl and ar=ar and lib=lib and U=U and origin=origin] by simp
next
  case (Cons x xs)
  obtain more where "to_crawl (crawl_iteration nl ar lib U origin s) = (xs @ q # ys) @ more"
    using iteration_queue[where s=s and u=x and rest="xs @ q # ys" and nl=nl and ar=ar and lib=lib and U=U and origin=origin]
      Cons.prems by auto
  then have "to_crawl (crawl_iteration nl ar lib U origin s) = xs @ q # (ys @ more)" by simp
  from Cons.IH[OF this] show ?case by (simp add: funpow_swap1)
qed

lemma visited_mono_step: "visited s \<subseteq> visited (crawl_iteration nl ar lib U origin s)"
proof (cases "to_crawl s")
  case Nil
  then show ?thesis by (simp add: iteration_empty)
next
  case (Cons u rest)
  then show ?thesis using iteration_visited[OF Cons] by auto
qed

lemma eventually_visited:
  assumes ok: "fetch_ok nl ar lib db0 U" and lk: "links_ok nl ar U" and v: "v \<in> reachable_urls nl ar U"
  shows "\<exists>n. v \<in> visited (crawl_after nl ar lib db0 origin U n)"
proof -
  have "(U, v) \<in> (link_edges nl ar U)\<^sup>*" using v by (simp add: reachable_urls_def)
  then show ?thesis
  proof (induction rule: rtrancl_induct)
    case base
    have "U \<in> visited (crawl_after nl ar lib db0 origin U (Suc 0))"
      using queued_visited[of "crawl_init db0 U" "[]" U "[]" nl ar lib U origin]
      by (simp add: crawl_after_def crawl_init_def)
    then show ?case ..
  next
    case (step y z)
    then obtain n where n: "y \<in> visited (crawl_after nl ar lib db0 origin U n)" by blast
    let ?s = "crawl_after nl ar lib db0 origin U n"
    have "crawl_inv nl ar db0 U ?s" using inv_after[OF ok lk] by blast
    then have "z \<in> visited ?s \<union> set (to_crawl ?s)"
      using n step.hyps(2) unfolding crawl_inv_def by blast
    then show ?case
    proof
      assume "z \<in> visited ?s" then show ?thesis ..
    next
      assume "z \<in> set (to_crawl ?s)"
      then obtain xs ys where "to_crawl ?s = xs @ z # ys" by (meson split_list)
      from queued_visited[OF this, of nl ar lib U origin]
      have "z \<in> visited (crawl_after nl ar lib db0 origin U (Suc (length xs) + n))"
        unfolding crawl_after_add .
      then show ?thesis ..
    qed
  qed
qed

lemma crawl_terminates:
  assumes ok: "fetch_ok nl ar lib db0 U" and lk: "links_ok nl ar U" and fin: "finite (reachable_urls nl ar U)"
  shows "crawl_inv nl ar db0 U s \<Longrightarrow> \<exists>n. to_crawl (((crawl_iteration nl ar lib U origin) ^^ n) s) = []"
proof (induction "(card (reachable_urls nl ar U - visited s), length (to_crawl s))"
    arbitrary: s rule: wf_induct_rule[OF wf_lex_prod[OF wf_less_than wf_less_than]])
  case less: 1
  let ?step = "crawl_iteration nl ar lib U origin"
  show ?case
  proof (cases "to_crawl s")
    case Nil
    then have "to_crawl ((?step ^^ 0) s) = []" by simp
    then show ?thesis by blast
  next
    case (Cons u rest)
    have inv': "crawl_inv nl ar db0 U (?step s)"
      using crawl_inv_step[OF ok lk less.prems] .
    have "((card (reachable_urls nl ar U - visited (?step s)), length (to_crawl (?step s))),
           (card (reachable_urls nl ar U - visited s), length (to_crawl s))) \<in> less_than <*lex*> less_than"
    proof (cases "u \<in> visited s")
      case True
      show ?thesis unfolding iteration_dup[OF Cons True] using Cons by simp
    next
      case False
      have ur: "u \<in> reachable_urls nl ar U"
        using less.prems Cons by (simp add: crawl_inv_def)
      have "reachable_urls nl ar U - insert u (visited s) \<subset> reachable_urls nl ar U - visited s"
        using ur False by auto
      then have "card (reachable_urls nl ar U - insert u (visited s)) < card (reachable_urls nl ar U - visited s)"
        using fin by (simp add: psubset_card_mono)
      then show ?thesis by (simp add: iteration_visited[OF Cons])
    qed
    from less.hyps[OF this inv'] obtain n where "to_crawl ((?step ^^ n) (?step s)) = []" by blast
    then have "to_crawl ((?step ^^ Suc n) s) = []" by (simp add: funpow_swap1)
    then show ?thesis by blast
  qed
qed

lemma crawl_loop_funpow:
  "to_crawl (((crawl_iteration nl ar lib U origin) ^^ n) s) = [] \<Longrightarrow>
   \<exists>m. crawl_loop nl ar lib U origin s = Some (((crawl_iteration nl ar lib U origin) ^^ m) s) \<and>
       to_crawl (((crawl_iteration nl ar lib U origin) ^^ m) s) = []"
proof (induction n arbitrary: s)
  case 0
  then have "crawl_loop nl ar lib U origin s = Some (((crawl_iteration nl ar lib U origin) ^^ 0) s)"
    by (simp add: crawl_loop.simps)
  with 0 show ?case by (metis funpow_0)
next
  case (Suc n)
  show ?case
  proof (cases "to_crawl s = []")
    case True
    then have "crawl_loop nl ar lib U origin s = Some (((crawl_iteration nl ar lib U origin) ^^ 0) s)"
      by (simp add: crawl_loop.simps)
    with True show ?thesis by (metis funpow_0)
  next
    case False
    from Suc.prems have "to_crawl (((crawl_iteration nl ar lib U origin) ^^ n) (crawl_iteration nl ar lib U origin s)) = []"
      by (simp add: funpow_swap1)
    from Suc.IH[OF this] obtain m where
      m: "crawl_loop nl ar lib U origin (crawl_iteration nl ar lib U origin s) =
            Some (((crawl_iteration nl ar lib U origin) ^^ m) (crawl_iteration nl ar lib U origin s))"
         "to_crawl (((crawl_iteration nl ar lib U origin) ^^ m) (crawl_iteration nl ar lib U origin s)) = []"
      by blast
    have "crawl_loop nl ar lib U origin s = Some (((crawl_iteration nl ar lib U origin) ^^ Suc m) s)"
      using False m(1) by (subst crawl_loop.simps) (simp add: funpow_swap1)
    moreover have "to_crawl (((crawl_iteration nl ar lib U origin) ^^ Suc m) s) = []"
      using m(2) by (simp add: funpow_swap1)
    ultimately show ?thesis by blast
  qed
qed

lemma closed_covers:
  assumes inv: "crawl_inv nl ar db0 U s" and e: "to_crawl s = []"
  shows "visited s = reachable_urls nl ar U"
proof
  show "visited s \<subseteq> reachable_urls nl ar U" using inv by (simp add: crawl_inv_def)
  show "reachable_urls nl ar U \<subseteq> visited s"
  proof
    fix v assume "v \<in> reachable_urls nl ar U"
    then have "(U, v) \<in> (link_edges nl ar U)\<^sup>*" by (simp add: reachable_urls_def)
    then show "v \<in> visited s"
      by (induction rule: rtrancl_induct) (use inv e in \<open>auto simp: crawl_inv_def\<close>)
  qed
qed

text \<open>
  Claim C1, as amended. Let the store report no reachable URL as crawled, let every fetch of a
  reachable URL succeed, and let the links of every reachable page be readable: each carries
  an \<open>href\<close>, and \<open>urlparse\<close> accepts it. Then the URLs fetched in the course of the loop are
  exactly the URLs reachable from the start URL along links of the start URL's domain; at
  every moment no URL has been fetched twice and the fetches stand in breadth-first order
  (the number of links from the start URL never decreases along them); and when only finitely
  many URLs are reachable, \<open>crawl_website\<close> returns, having fetched exactly the reachable
  URLs, once each, in that order, and returns them as its list of crawled pages.
\<close>

theorem C1_bfs_crawl:
  assumes "fetch_ok netloc arun lib db0 start_url"
    and "links_ok netloc arun start_url"
  shows "(\<Union>n. set (fetch_log (crawl_after netloc arun lib db0 origin start_url n)))
           = reachable_urls netloc arun start_url \<and>
         (\<forall>n. distinct (fetch_log (crawl_after netloc arun lib db0 origin start_url n)) \<and>
              sorted (map (hops netloc arun start_url)
                (fetch_log (crawl_after netloc arun lib db0 origin start_url n)))) \<and>
         (finite (reachable_urls netloc arun start_url) \<longrightarrow>
            (\<exists>s. crawl_website netloc arun lib db0 origin start_url = Some s \<and>
                 set (fetch_log s) = reachable_urls netloc arun start_url \<and>
                 distinct (fetch_log s) \<and>
                 sorted (map (hops netloc arun start_url) (fetch_log s)) \<and>
                 crawled_pages s = fetch_log s))"
proof -
  let ?R = "reachable_urls netloc arun start_url"
  let ?after = "crawl_after netloc arun lib db0 origin start_url"
  note ok = assms(1) and lk = assms(2)
  have inv: "crawl_inv netloc arun db0 start_url (?after n)" for n
    using inv_after[OF ok lk] by blast
  have lev: "\<exists>k. level_inv netloc arun start_url (?after n) k" for n
    using inv_after[OF ok lk] by blast
  have log: "set (fetch_log (?after n)) = visited (?after n)" for n
    using inv[of n] by (simp add: crawl_inv_def)
  have sub: "set (fetch_log (?after n)) \<subseteq> ?R" for n
    using inv[of n] by (simp add: crawl_inv_def)
  have sup: "v \<in> (\<Union>n. set (fetch_log (?after n)))" if "v \<in> ?R" for v
    using eventually_visited[OF ok lk that, of origin] log by auto
  have one: "(\<Union>n. set (fetch_log (?after n))) = ?R"
    using sub sup by blast
  have two: "distinct (fetch_log (?after n)) \<and> sorted (map (hops netloc arun start_url) (fetch_log (?after n)))" for n
    using inv[of n] lev[of n] by (auto simp: crawl_inv_def level_inv_def)
  have three: "\<exists>s. crawl_website netloc arun lib db0 origin start_url = Some s \<and>
                 set (fetch_log s) = ?R \<and> distinct (fetch_log s) \<and>
                 sorted (map (hops netloc arun start_url) (fetch_log s)) \<and>
                 crawled_pages s = fetch_log s" if fin: "finite ?R"
  proof -
    from crawl_terminates[OF ok lk fin crawl_inv_init, of origin]
    obtain n where "to_crawl (((crawl_iteration netloc arun lib start_url origin) ^^ n) (crawl_init db0 start_url)) = []"
      by blast
    from crawl_loop_funpow[OF this] obtain m where
      m: "crawl_website netloc arun lib db0 origin start_url = Some (?after m)" "to_crawl (?after m) = []"
      by (auto simp: crawl_website_def crawl_after_def)
    have "visited (?after m) = ?R" using closed_covers[OF inv m(2)] .
    then show ?thesis using m(1) two[of m] log[of m] inv[of m] by (auto simp: crawl_inv_def)
  qed
  show ?thesis using one two three by blast
qed

lemma crawl_loop_done: "to_crawl s = [] \<Longrightarrow> crawl_loop nl ar lib U origin s = Some s"
  by (simp add: crawl_loop.simps)

lemma crawl_loop_step:
  "to_crawl s \<noteq> [] \<Longrightarrow>
   crawl_loop nl ar lib U origin s = crawl_loop nl ar lib U origin (crawl_iteration nl ar lib U origin s)"
  by (subst crawl_loop.simps) simp

lemmas run_simps = crawl_init_def crawl_iteration_def enqueue_def isCrawled_def execute_def
  select_eq_url_def insert_page_to_db_def netloc_simple_def client_simple_def Let_def

lemma site_a_run:
  "crawl_website netloc_simple site_a client_simple [] ''run'' ''https://x.test/'' =
     Some \<lparr>visited = {''https://x.test/'', ''https://x.test/about''}, to_crawl = [],
       crawled_pages = [''https://x.test/'', ''https://x.test/about''],
       db = [\<lparr>row_url = ''https://x.test/'', row_html = ''<html/>'', row_title = ''page'', row_origin_id = ''run''\<rparr>,
             \<lparr>row_url = ''https://x.test/about'', row_html = ''<html/>'', row_title = ''page'', row_origin_id = ''run''\<rparr>],
       fetch_log = [''https://x.test/'', ''https://x.test/about'']\<rparr>"
  by (simp add: crawl_website_def crawl_loop_done crawl_loop_step run_simps site_a_def insert_commute)

lemma site_a_reachable:
  "reachable_urls netloc_simple site_a ''https://x.test/'' = {''https://x.test/'', ''https://x.test/about''}"
proof -
  have e: "(u, v) \<in> link_edges netloc_simple site_a ''https://x.test/'' \<longleftrightarrow>
        (u = ''https://x.test/'' \<and> v = ''https://x.test/about'') \<or>
        (u = ''https://x.test/about'' \<and> v = ''https://x.test/'')" for u v
    by (auto simp: link_edges_def same_domain_links_def hrefs_def site_a_def netloc_simple_def)
  have "v \<in> {''https://x.test/'', ''https://x.test/about''}"
    if "(''https://x.test/'', v) \<in> (link_edges netloc_simple site_a ''https://x.test/'')\<^sup>*" for v
    using that by (induction rule: rtrancl_induct) (auto simp: e)
  moreover have "(''https://x.test/'', ''https://x.test/about'') \<in> (link_edges netloc_simple site_a ''https://x.test/'')\<^sup>*"
    using e by blast
  ultimately show ?thesis unfolding reachable_urls_def by blast
qed

text \<open>Scenario A of the specification: the crawl of \<open>site_a\<close> from \<open>https://x.test/\<close>.\<close>

theorem C1_bfs_crawl_witness:
  "(\<Union>n. set (fetch_log (crawl_after netloc_simple site_a client_simple [] ''run'' ''https://x.test/'' n)))
      = {''https://x.test/'', ''https://x.test/about''} \<and>
   (\<forall>n. distinct (fetch_log (crawl_after netloc_simple site_a client_simple [] ''run'' ''https://x.test/'' n)) \<and>
        sorted (map (hops netloc_simple site_a ''https://x.test/'')
          (fetch_log (crawl_after netloc_simple site_a client_simple [] ''run'' ''https://x.test/'' n)))) \<and>
   (\<exists>s. crawl_website netloc_simple site_a client_simple [] ''run'' ''https://x.test/'' = Some s \<and>
        fetch_log s = [''https://x.test/'', ''https://x.test/about''] \<and>
        set (fetch_log s) = reachable_urls netloc_simple site_a ''https://x.test/'' \<and>
        sorted (map (hops netloc_simple site_a ''https://x.test/'') (fetch_log s)) \<and>
        crawled_pages s = fetch_log s)"
proof -
  have ok: "fetch_ok netloc_simple site_a client_simple [] ''https://x.test/''"
    by (simp add: fetch_ok_def isCrawled_def execute_def client_simple_def select_eq_url_def site_a_def)
  have lk: "links_ok netloc_simple site_a ''https://x.test/''"
    by (simp add: links_ok_def site_a_def netloc_simple_def)
  have fin: "finite (reachable_urls netloc_simple site_a ''https://x.test/'')"
    by (simp add: site_a_reachable)
  show ?thesis
    using C1_bfs_crawl[OF ok lk, of "''run''"] fin site_a_run
    by (simp add: site_a_reachable)
qed

text \<open>
  Claim C1 as stated fails. On \<open>site_bad_link\<close> the store is empty and every fetch succeeds,
  and the second page is reachable from the start URL by a link of its domain. The crawl
  returns having fetched the start URL alone: the link in front of it makes \<open>urlparse\<close> raise
  ValueError, and the \<open>except\<close> of the loop body leaves the remaining links of the page
  unread.
\<close>

theorem C1_bfs_crawl_counterexample:
  "fetch_ok netloc_simple site_bad_link client_simple [] ''https://x.test/'' \<and>
   ''https://x.test/about'' \<in> reachable_urls netloc_simple site_bad_link ''https://x.test/'' \<and>
   crawl_website netloc_simple site_bad_link client_simple [] ''run'' ''https://x.test/'' =
     Some \<lparr>visited = {''https://x.test/''}, to_crawl = [],
       crawled_pages = [''https://x.test/''],
       db = [\<lparr>row_url = ''https://x.test/'', row_html = ''<html/>'', row_title = ''page'', row_origin_id = ''run''\<rparr>],
       fetch_log = [''https://x.test/'']\<rparr> \<and>
   ''https://x.test/about'' \<notin> set [''https://x.test/'']"
proof -
  have ok: "fetch_ok netloc_simple site_bad_link client_simple [] ''https://x.test/''"
    by (simp add: fetch_ok_def isCrawled_def execute_def client_simple_def select_eq_url_def
        site_bad_link_def)
  have "(''https://x.test/'', ''https://x.test/about'') \<in> link_edges netloc_simple site_bad_link ''https://x.test/''"
    by (simp add: link_edges_def same_domain_links_def hrefs_def site_bad_link_def netloc_simple_def)
  then have re: "''https://x.test/about'' \<in> reachable_urls netloc_simple site_bad_link ''https://x.test/''"
    unfolding reachable_urls_def by blast
  have run: "crawl_website netloc_simple site_bad_link client_simple [] ''run'' ''https://x.test/'' =
     Some \<lparr>visited = {''https://x.test/''}, to_crawl = [],
       crawled_pages = [''https://x.test/''],
       db = [\<lparr>row_url = ''https://x.test/'', row_html = ''<html/>'', row_title = ''page'', row_origin_id = ''run''\<rparr>],
       fetch_log = [''https://x.test/'']\<rparr>"
    by (simp add: crawl_website_def crawl_loop_done crawl_loop_step run_simps site_bad_link_def)
  show ?thesis using ok re run by simp
qed

section \<open>The enqueue gate\<close>

lemma iteration_link_raises:
  assumes "to_crawl s = u # rest" "u \<notin> visited s" "isCrawled lib (db s) u \<noteq> Some True"
    and "ar u = Some r" "success r" "title r = Some t" "nl U = Some d"
    and "internal_links r = Some (good @ bad # unread)"
    and "\<forall>l \<in> set good. \<exists>h. l = Some h \<and> nl h \<noteq> None"
    and "enqueue nl d (insert u (visited s)) [] bad = Inl x"
  shows "crawl_iteration nl ar lib U origin s =
     s\<lparr>to_crawl := rest @ filter (\<lambda>h. nl h = Some d \<and> h \<notin> insert u (visited s)) (hrefs good),
       visited := insert u (visited s),
       crawled_pages := crawled_pages s @ [u],
       db := insert_page_to_db lib (db s) u (html r) t origin,
       fetch_log := fetch_log s @ [u]\<rparr>"
  using assms(1-8)
  by (simp add: crawl_iteration_def Let_def enqueue_links_stop[OF assms(9,10)])

text \<open>
  Claim C2, as amended. The \<open>href\<close> of a link is appended to the tail of the queue exactly
  when \<open>urlparse\<close> accepts it, its network location is that of the start URL and it is not in
  the visited set; whether it is already waiting in the queue is not looked at. An \<open>href\<close>
  that \<open>urlparse\<close> accepts and that fails the gate leaves the queue as it is. A link without
  \<open>href\<close> raises KeyError, and an \<open>href\<close> that \<open>urlparse\<close> refuses raises ValueError. The loop
  over the links of a page appends, in order, the links that pass the gate; it ends at the
  first link that raises, with the links in front of it appended and the links behind it
  unread, and the loop body of the crawl goes on from there: the exception does not leave
  it.
\<close>

theorem C2_enqueue_gate:
  "(enqueue netloc domain vis queue (Some href) = Inr (queue @ [href]) \<longleftrightarrow>
      netloc href = Some domain \<and> href \<notin> vis) \<and>
   (netloc href \<noteq> None \<and> \<not> (netloc href = Some domain \<and> href \<notin> vis) \<longrightarrow>
      enqueue netloc domain vis queue (Some href) = Inr queue) \<and>
   (netloc href = None \<longrightarrow> enqueue netloc domain vis queue (Some href) = Inl ValueError) \<and>
   enqueue netloc domain vis queue None = Inl KeyError \<and>
   ((\<forall>l \<in> set links. \<exists>h. l = Some h \<and> netloc h \<noteq> None) \<longrightarrow>
      enqueue_links netloc domain vis queue links =
        (queue @ filter (\<lambda>h. netloc h = Some domain \<and> h \<notin> vis) (hrefs links), None)) \<and>
   ((\<forall>l \<in> set good. \<exists>h. l = Some h \<and> netloc h \<noteq> None) \<and> enqueue netloc domain vis [] bad = Inl x \<longrightarrow>
      enqueue_links netloc domain vis queue (good @ bad # unread) =
        (queue @ filter (\<lambda>h. netloc h = Some domain \<and> h \<notin> vis) (hrefs good), Some x)) \<and>
   (to_crawl s = u # rest \<and> u \<notin> visited s \<and> isCrawled lib (db s) u \<noteq> Some True \<and>
    arun u = Some r \<and> success r \<and> title r = Some t \<and> netloc start_url = Some domain \<and>
    internal_links r = Some (good @ bad # unread) \<and>
    (\<forall>l \<in> set good. \<exists>h. l = Some h \<and> netloc h \<noteq> None) \<and>
    enqueue netloc domain (insert u (visited s)) [] bad = Inl x \<longrightarrow>
      to_crawl (crawl_iteration netloc arun lib start_url origin s) =
        rest @ filter (\<lambda>h. netloc h = Some domain \<and> h \<notin> insert u (visited s)) (hrefs good))"
proof (intro conjI impI)
  show "enqueue netloc domain vis queue (Some href) = Inr (queue @ [href]) \<longleftrightarrow>
      netloc href = Some domain \<and> href \<notin> vis"
    by (auto simp: enqueue_def split: option.splits)
  show "enqueue netloc domain vis queue (Some href) = Inr queue"
    if "netloc href \<noteq> None \<and> \<not> (netloc href = Some domain \<and> href \<notin> vis)"
    using that by (auto simp: enqueue_def split: option.splits)
  show "enqueue netloc domain vis queue (Some href) = Inl ValueError" if "netloc href = None"
    using that by (simp add: enqueue_def)
  show "enqueue netloc domain vis queue None = Inl KeyError"
    by (simp add: enqueue_def)
  show "enqueue_links netloc domain vis queue links =
        (queue @ filter (\<lambda>h. netloc h = Some domain \<and> h \<notin> vis) (hrefs links), None)"
    if "\<forall>l \<in> set links. \<exists>h. l = Some h \<and> netloc h \<noteq> None"
    using that by (rule enqueue_links_filter)
  show "enqueue_links netloc domain vis queue (good @ bad # unread) =
        (queue @ filter (\<lambda>h. netloc h = Some domain \<and> h \<notin> vis) (hrefs good), Some x)"
    if "(\<forall>l \<in> set good. \<exists>h. l = Some h \<and> netloc h \<noteq> None) \<and> enqueue netloc domain vis [] bad = Inl x"
    using that enqueue_links_stop by blast
  show "to_crawl (crawl_iteration netloc arun lib start_url origin s) =
        rest @ filter (\<lambda>h. netloc h = Some domain \<and> h \<notin> insert u (visited s)) (hrefs good)"
    if a: "to_crawl s = u # rest \<and> u \<notin> visited s \<and> isCrawled lib (db s) u \<noteq> Some True \<and>
      arun u = Some r \<and> success r \<and> title r = Some t \<and> netloc start_url = Some domain \<and>
      internal_links r = Some (good @ bad # unread) \<and>
      (\<forall>l \<in> set good. \<exists>h. l = Some h \<and> netloc h \<noteq> None) \<and>
      enqueue netloc domain (insert u (visited s)) [] bad = Inl x"
  proof -
    have "crawl_iteration netloc arun lib start_url origin s =
       s\<lparr>to_crawl := rest @ filter (\<lambda>h. netloc h = Some domain \<and> h \<notin> insert u (visited s)) (hrefs good),
         visited := insert u (visited s),
         crawled_pages := crawled_pages s @ [u],
         db := insert_page_to_db lib (db s) u (html r) t origin,
         fetch_log := fetch_log s @ [u]\<rparr>"
      by (rule iteration_link_raises[where ar=arun and bad=bad and unread=unread and x=x]) (use a in simp_all)
    then show ?thesis by simp
  qed
qed

text \<open>The gate at a link of the start URL's domain, at one of another domain and at one that
  \<open>urlparse\<close> refuses; the loop over readable links and over a list with a link without
  \<open>href\<close>; the first pass of the crawl of \<open>site_bad_link\<close>.\<close>

theorem C2_enqueue_gate_witness:
  "enqueue netloc_simple ''x.test'' {''https://x.test/''} [''https://x.test/a''] (Some ''https://x.test/b'')
     = Inr [''https://x.test/a'', ''https://x.test/b''] \<and>
   enqueue netloc_simple ''x.test'' {''https://x.test/''} [''https://x.test/a''] (Some ''https://y.test/'')
     = Inr [''https://x.test/a''] \<and>
   enqueue netloc_simple ''x.test'' {''https://x.test/''} [''https://x.test/a''] (Some ''https://[x.test/bad'')
     = Inl ValueError \<and>
   enqueue_links netloc_simple ''x.test'' {''https://x.test/''} []
       [Some ''https://x.test/'', Some ''https://y.test/'', Some ''https://x.test/b'']
     = ([''https://x.test/b''], None) \<and>
   enqueue_links netloc_simple ''x.test'' {''https://x.test/''} []
       ([Some ''https://x.test/b''] @ None # [Some ''https://x.test/c''])
     = ([''https://x.test/b''], Some KeyError) \<and>
   to_crawl (crawl_iteration netloc_simple site_bad_link client_simple ''https://x.test/'' ''run''
       (crawl_init [] ''https://x.test/'')) = []"
proof -
  note t = C2_enqueue_gate[where netloc=netloc_simple and domain="''x.test''" and vis="{''https://x.test/''}"]
  have a: "enqueue netloc_simple ''x.test'' {''https://x.test/''} [''https://x.test/a''] (Some ''https://x.test/b'')
     = Inr [''https://x.test/a'', ''https://x.test/b'']"
    using t[where queue="[''https://x.test/a'']" and href="''https://x.test/b''", THEN conjunct1]
    by (simp add: netloc_simple_def)
  have b: "enqueue netloc_simple ''x.test'' {''https://x.test/''} [''https://x.test/a''] (Some ''https://y.test/'')
     = Inr [''https://x.test/a'']"
    using t[where queue="[''https://x.test/a'']" and href="''https://y.test/''", THEN conjunct2, THEN conjunct1]
    by (simp add: netloc_simple_def)
  have c: "enqueue netloc_simple ''x.test'' {''https://x.test/''} [''https://x.test/a''] (Some ''https://[x.test/bad'')
     = Inl ValueError"
    using t[where queue="[''https://x.test/a'']" and href="''https://[x.test/bad''",
        THEN conjunct2, THEN conjunct2, THEN conjunct1]
    by (simp add: netloc_simple_def)
  have d: "enqueue_links netloc_simple ''x.test'' {''https://x.test/''} []
       [Some ''https://x.test/'', Some ''https://y.test/'', Some ''https://x.test/b'']
     = ([''https://x.test/b''], None)"
    using t[where queue="[]" and links="[Some ''https://x.test/'', Some ''https://y.test/'', Some ''https://x.test/b'']",
        THEN conjunct2, THEN conjunct2, THEN conjunct2, THEN conjunct2, THEN conjunct1]
    by (simp add: netloc_simple_def hrefs_def)
  have e: "enqueue_links netloc_simple ''x.test'' {''https://x.test/''} []
       ([Some ''https://x.test/b''] @ None # [Some ''https://x.test/c''])
     = ([''https://x.test/b''], Some KeyError)"
    using t[where queue="[]" and good="[Some ''https://x.test/b'']" and bad=None and x=KeyError
        and unread="[Some ''https://x.test/c'']",
        THEN conjunct2, THEN conjunct2, THEN conjunct2, THEN conjunct2, THEN conjunct2, THEN conjunct1]
    by (simp add: netloc_simple_def hrefs_def enqueue_def)
  have f: "to_crawl (crawl_iteration netloc_simple site_bad_link client_simple ''https://x.test/'' ''run''
       (crawl_init [] ''https://x.test/'')) = []"
    using C2_enqueue_gate[where netloc=netloc_simple and domain="''x.test''"
        and s="crawl_init [] ''https://x.test/''" and u="''https://x.test/''" and rest="[]"
        and lib=client_simple and arun=site_bad_link and start_url="''https://x.test/''"
        and r="\<lparr>success = True, html = ''<html/>'', title = Some ''page'',
                internal_links = Some [Some ''https://[x.test/bad'', Some ''https://x.test/about'']\<rparr>"
        and t="''page''" and good="[]" and bad="Some ''https://[x.test/bad''"
        and unread="[Some ''https://x.test/about'']" and x=ValueError and origin="''run''",
        THEN conjunct2, THEN conjunct2, THEN conjunct2, THEN conjunct2, THEN conjunct2, THEN conjunct2]
    by (simp add: crawl_init_def isCrawled_def execute_def client_simple_def select_eq_url_def
        site_bad_link_def netloc_simple_def enqueue_def hrefs_def)
  show ?thesis using a b c d e f by blast
qed

text \<open>
  Claim C2 as stated fails twice. A URL that already waits in the queue is appended again: in
  the crawl of \<open>site_diamond\<close> the third pass of the loop finds \<open>https://x.test/c\<close> in the queue
  and appends it once unread. And an error is raised: \<open>urlparse\<close> refuses the link of
  \<open>site_bad_link\<close>, and a link without \<open>href\<close> raises KeyError.
\<close>

theorem C2_enqueue_counterexample:
  "''https://x.test/a'' \<in> set [''https://x.test/a''] \<and>
   enqueue netloc_simple ''x.test'' {} [''https://x.test/a''] (Some ''https://x.test/a'')
     = Inr [''https://x.test/a'', ''https://x.test/a''] \<and>
   to_crawl (crawl_after netloc_simple site_diamond client_simple [] ''run'' ''https://x.test/'' (Suc (Suc 0)))
     = [''https://x.test/b'', ''https://x.test/c''] \<and>
   to_crawl (crawl_after netloc_simple site_diamond client_simple [] ''run'' ''https://x.test/'' (Suc (Suc (Suc 0))))
     = [''https://x.test/c'', ''https://x.test/c''] \<and>
   enqueue netloc_simple ''x.test'' {} [] (Some ''https://[x.test/bad'') = Inl ValueError \<and>
   enqueue netloc_simple ''x.test'' {} [] None = Inl KeyError"
  by (simp add: crawl_after_def run_simps site_diamond_def)

section \<open>Pages the store already holds\<close>

lemma store_inv_init: "store_inv lib db0 (crawl_init db0 U)"
  by (simp add: store_inv_def crawl_init_def)

lemma store_inv_step:
  assumes "store_inv lib db0 s"
  shows "store_inv lib db0 (crawl_iteration nl ar lib U origin s)"
proof (cases "to_crawl s")
  case Nil
  then show ?thesis using assms by (simp add: iteration_empty)
next
  case (Cons u rest)
  show ?thesis
  proof (cases "u \<in> visited s")
    case True
    show ?thesis unfolding iteration_dup[OF Cons True] using assms by (simp add: store_inv_def)
  next
    case False
    have rows: "select_eq_url (db s) u = select_eq_url db0 u"
      using assms False by (simp add: store_inv_def)
    show ?thesis
    proof (cases "isCrawled lib (db s) u = Some True")
      case True
      show ?thesis unfolding iteration_skip[OF Cons False True] using assms
        by (auto simp: store_inv_def)
    next
      case nc: False
      then have nc0: "isCrawled lib db0 u \<noteq> Some True"
        using isCrawled_rows[OF rows, of lib] by simp
      show ?thesis
        using assms Cons False nc nc0
        unfolding store_inv_def crawl_iteration_def
        by (auto simp: Let_def select_insert split: option.splits)
    qed
  qed
qed

lemma store_inv_after: "store_inv lib db0 (crawl_after nl ar lib db0 origin U n)"
  by (induction n) (simp_all add: crawl_after_def store_inv_init store_inv_step)

text \<open>What \<open>crawl_loop\<close> returns is a state the iteration reaches, with an empty queue.\<close>

lemma crawl_loop_reaches:
  assumes ret: "crawl_loop nl ar lib U origin s = Some s'"
  shows "\<exists>m. s' = ((crawl_iteration nl ar lib U origin) ^^ m) s \<and> to_crawl s' = []"
proof (rule crawl_loop.raw_induct[where
      P="\<lambda>nl ar lib U origin s s'. \<exists>m. s' = ((crawl_iteration nl ar lib U origin) ^^ m) s \<and> to_crawl s' = []",
      OF _ ret])
  fix loop :: "(url \<Rightarrow> string option) \<Rightarrow> (url \<Rightarrow> crawl_result option) \<Rightarrow> client_lib \<Rightarrow> url \<Rightarrow> string \<Rightarrow>
      crawl_state \<Rightarrow> crawl_state option"
  fix nl ar lib U origin s s'
  assume IH: "\<And>nl ar lib U origin s y. loop nl ar lib U origin s = Some y \<Longrightarrow>
      \<exists>m. y = ((crawl_iteration nl ar lib U origin) ^^ m) s \<and> to_crawl y = []"
    and eq: "(if to_crawl s = [] then Some s
              else loop nl ar lib U origin (crawl_iteration nl ar lib U origin s)) = Some s'"
  show "\<exists>m. s' = ((crawl_iteration nl ar lib U origin) ^^ m) s \<and> to_crawl s' = []"
  proof (cases "to_crawl s = []")
    case True
    then have "s' = ((crawl_iteration nl ar lib U origin) ^^ 0) s \<and> to_crawl s' = []"
      using eq by simp
    then show ?thesis by blast
  next
    case False
    then have "loop nl ar lib U origin (crawl_iteration nl ar lib U origin s) = Some s'"
      using eq by simp
    from IH[OF this] obtain m where
      "s' = ((crawl_iteration nl ar lib U origin) ^^ m) (crawl_iteration nl ar lib U origin s)" "to_crawl s' = []"
      by blast
    then have "s' = ((crawl_iteration nl ar lib U origin) ^^ Suc m) s \<and> to_crawl s' = []"
      by (simp add: funpow_swap1)
    then show ?thesis by blast
  qed
qed

lemma crawl_website_reaches:
  "crawl_website nl ar lib db0 origin U = Some cs \<Longrightarrow> \<exists>m. cs = crawl_after nl ar lib db0 origin U m"
  unfolding crawl_website_def crawl_after_def using crawl_loop_reaches by blast

text \<open>The analysis is called for the strings the loop of the pipeline iterates over, and for
  nothing else.\<close>

lemma process_url_analyzed:
  "Analyzed v \<in> set (events (process_url e U pages st u)) \<Longrightarrow> v = u \<or> Analyzed v \<in> set (events st)"
  unfolding process_url_def
  by (auto simp: log_def Let_def split: option.splits sum.splits analysis_result.splits if_splits)

lemma process_items_analyzed:
  "Analyzed v \<in> set (events (process_items e U pages st items)) \<Longrightarrow>
   Url v \<in> set items \<or> Analyzed v \<in> set (events st)"
proof (induction items arbitrary: st)
  case Nil
  then show ?case by (simp add: process_items_def)
next
  case (Cons i items)
  from Cons.prems have
    "Analyzed v \<in> set (events (process_items e U pages (process_item e U pages st i) items))"
    by (simp add: process_items_def)
  from Cons.IH[OF this] show ?case
  proof
    assume "Url v \<in> set items" then show ?thesis by simp
  next
    assume a: "Analyzed v \<in> set (events (process_item e U pages st i))"
    show ?thesis
    proof (cases i)
      case (Url u)
      then show ?thesis using a process_url_analyzed[of v e U pages st u]
        by (auto simp: process_item_def)
    next
      case Other
      then show ?thesis using a by (simp add: process_item_def log_def)
    qed
  qed
qed

lemma publish_analyzed:
  "Analyzed v \<in> set (events (publish e U st)) \<longleftrightarrow> Analyzed v \<in> set (events st)"
  by (auto simp: publish_def log_def split: prod.splits sum.splits)

lemma run_pipeline_analyzed:
  assumes "run_pipeline e U cs = Inr st" "Analyzed v \<in> set (events st)"
  shows "\<exists>items. pipeline_items (store_lib e) (db cs) U (crawled_pages cs) = Some (Inr items) \<and>
           Url v \<in> set items"
proof (cases "pipeline_items (store_lib e) (db cs) U (crawled_pages cs)")
  case None
  then show ?thesis using assms by (auto simp: run_pipeline_def)
next
  case (Some src)
  show ?thesis
  proof (cases src)
    case (Inl x)
    then show ?thesis using assms Some by (auto simp: run_pipeline_def split: option.splits)
  next
    case (Inr items)
    then have st: "st = publish e U (collect e U cs items)"
      using assms(1) Some by (auto simp: run_pipeline_def split: option.splits)
    have "Analyzed v \<in> set (events (collect e U cs items))"
      using assms(2) unfolding st publish_analyzed .
    then have "Url v \<in> set items"
      unfolding collect_def using process_items_analyzed by fastforce
    then show ?thesis using Some Inr by simp
  qed
qed

text \<open>
  Claim C3, as amended. Let a URL be popped from the queue, not yet visited, and let
  \<open>isCrawled\<close> answer \<open>True\<close> for it. Then the pass that pops it changes the queue and the
  visited set and nothing else; the URL is never fetched in this run and is not in the list
  \<open>crawl_website\<close> returns. When that list is not empty, the loop of the pipeline iterates
  over it and over nothing else, the URL is not among its items, and the run does not hand
  the stored page to the analysis.
\<close>

theorem C3_skip_already_crawled:
  assumes popped: "to_crawl (crawl_after (env_netloc e) (env_arun e) (store_lib e) (env_db0 e)
                     (env_origin e) start_url n) = u # rest"
    and fresh: "u \<notin> visited (crawl_after (env_netloc e) (env_arun e) (store_lib e) (env_db0 e)
                     (env_origin e) start_url n)"
    and reported: "isCrawled (store_lib e)
                     (db (crawl_after (env_netloc e) (env_arun e) (store_lib e) (env_db0 e)
                           (env_origin e) start_url n)) u = Some True"
  shows "crawl_after (env_netloc e) (env_arun e) (store_lib e) (env_db0 e) (env_origin e) start_url (Suc n) =
           (crawl_after (env_netloc e) (env_arun e) (store_lib e) (env_db0 e) (env_origin e) start_url n)
             \<lparr>to_crawl := rest,
              visited := insert u (visited (crawl_after (env_netloc e) (env_arun e) (store_lib e)
                                             (env_db0 e) (env_origin e) start_url n))\<rparr> \<and>
         (\<forall>m. u \<notin> set (fetch_log (crawl_after (env_netloc e) (env_arun e) (store_lib e) (env_db0 e)
                                     (env_origin e) start_url m))) \<and>
         (\<forall>cs. crawl_website (env_netloc e) (env_arun e) (store_lib e) (env_db0 e) (env_origin e) start_url
                  = Some cs \<longrightarrow>
            u \<notin> set (fetch_log cs) \<and> u \<notin> set (crawled_pages cs) \<and>
            (crawled_pages cs \<noteq> [] \<longrightarrow>
               pipeline_items (store_lib e) (db cs) start_url (crawled_pages cs)
                 = Some (Inr (map Url (crawled_pages cs))) \<and>
               Url u \<notin> set (map Url (crawled_pages cs)) \<and>
               (\<forall>st. process_website e start_url = Some (Inr st) \<longrightarrow> Analyzed u \<notin> set (events st))))"
proof -
  let ?after = "crawl_after (env_netloc e) (env_arun e) (store_lib e) (env_db0 e) (env_origin e) start_url"
  have pass: "?after (Suc n) = (?after n)\<lparr>to_crawl := rest, visited := insert u (visited (?after n))\<rparr>"
    unfolding crawl_after_Suc by (rule iteration_skip[OF popped fresh reported])
  have "select_eq_url (db (?after n)) u = select_eq_url (env_db0 e) u"
    using store_inv_after[of "store_lib e" "env_db0 e" "env_netloc e" "env_arun e" "env_origin e" start_url n]
      fresh by (simp add: store_inv_def)
  then have old: "isCrawled (store_lib e) (env_db0 e) u = Some True"
    using reported isCrawled_rows[of "db (?after n)" u "env_db0 e" "store_lib e"] by simp
  have never: "u \<notin> set (fetch_log (?after m))" for m
    using store_inv_after[of "store_lib e" "env_db0 e" "env_netloc e" "env_arun e" "env_origin e" start_url m]
      old by (auto simp: store_inv_def)
  have ret: "u \<notin> set (fetch_log cs) \<and> u \<notin> set (crawled_pages cs) \<and>
      (crawled_pages cs \<noteq> [] \<longrightarrow>
         pipeline_items (store_lib e) (db cs) start_url (crawled_pages cs)
           = Some (Inr (map Url (crawled_pages cs))) \<and>
         Url u \<notin> set (map Url (crawled_pages cs)) \<and>
         (\<forall>st. process_website e start_url = Some (Inr st) \<longrightarrow> Analyzed u \<notin> set (events st)))"
    if cw: "crawl_website (env_netloc e) (env_arun e) (store_lib e) (env_db0 e) (env_origin e) start_url = Some cs"
    for cs
  proof -
    obtain m where m: "cs = ?after m"
      using crawl_website_reaches[OF cw] by blast
    have a: "u \<notin> set (fetch_log cs)" using never m by simp
    have b: "u \<notin> set (crawled_pages cs)"
      using store_inv_after[of "store_lib e" "env_db0 e" "env_netloc e" "env_arun e" "env_origin e" start_url m]
        a m by (auto simp: store_inv_def)
    have c: "pipeline_items (store_lib e) (db cs) start_url (crawled_pages cs)
               = Some (Inr (map Url (crawled_pages cs)))" if "crawled_pages cs \<noteq> []"
      using that by (simp add: pipeline_items_def pipeline_source_def iterate_def)
    have d: "Url u \<notin> set (map Url (crawled_pages cs))"
      using b by auto
    have f: "Analyzed u \<notin> set (events st)"
      if ne: "crawled_pages cs \<noteq> []" and pw: "process_website e start_url = Some (Inr st)" for st
    proof
      assume an: "Analyzed u \<in> set (events st)"
      have "run_pipeline e start_url cs = Inr st"
        using pw cw by (auto simp: process_website_def split: if_splits)
      from run_pipeline_analyzed[OF this an] c[OF ne] have "Url u \<in> set (map Url (crawled_pages cs))"
        by auto
      then show False using d by simp
    qed
    show ?thesis using a b c d f by blast
  qed
  show ?thesis using pass never ret by blast
qed

lemma site_a_db_about_run:
  "crawl_website netloc_simple site_a client_simple db_about ''run'' ''https://x.test/'' =
     Some \<lparr>visited = {''https://x.test/'', ''https://x.test/about''}, to_crawl = [],
       crawled_pages = [''https://x.test/''],
       db = db_about @ [\<lparr>row_url = ''https://x.test/'', row_html = ''<html/>'', row_title = ''page'', row_origin_id = ''run''\<rparr>],
       fetch_log = [''https://x.test/'']\<rparr>"
  by (simp add: crawl_website_def crawl_loop_done crawl_loop_step run_simps site_a_def db_about_def
      insert_commute)

lemma site_a_db_about_after1:
  "crawl_after netloc_simple site_a client_simple db_about ''run'' ''https://x.test/'' (Suc 0) =
     \<lparr>visited = {''https://x.test/''}, to_crawl = [''https://x.test/about''],
       crawled_pages = [''https://x.test/''],
       db = db_about @ [\<lparr>row_url = ''https://x.test/'', row_html = ''<html/>'', row_title = ''page'', row_origin_id = ''run''\<rparr>],
       fetch_log = [''https://x.test/'']\<rparr>"
  by (simp add: crawl_after_def run_simps site_a_def db_about_def)

lemma env_about_fields:
  "env_netloc env_about = netloc_simple" "env_arun env_about = site_a"
  "store_lib env_about = client_simple" "env_db0 env_about = db_about"
  "env_origin env_about = ''run''" "supabase_configured env_about"
  "makedirs env_about = (\<lambda>p. None)"
  by (simp_all add: env_about_def env_ok_def)

text \<open>The crawl of \<open>site_a\<close> over a store that already holds \<open>https://x.test/about\<close>, and
  the run it is part of.\<close>

theorem C3_skip_already_crawled_witness:
  "(\<forall>m. ''https://x.test/about'' \<notin> set (fetch_log
          (crawl_after netloc_simple site_a client_simple db_about ''run'' ''https://x.test/'' m))) \<and>
   (\<exists>cs. crawl_website netloc_simple site_a client_simple db_about ''run'' ''https://x.test/'' = Some cs \<and>
      ''https://x.test/about'' \<notin> set (fetch_log cs) \<and> ''https://x.test/about'' \<notin> set (crawled_pages cs) \<and>
      pipeline_items client_simple (db cs) ''https://x.test/'' (crawled_pages cs)
        = Some (Inr [Url ''https://x.test/''])) \<and>
   (\<exists>st. process_website env_about ''https://x.test/'' = Some (Inr st) \<and>
      Analyzed ''https://x.test/about'' \<notin> set (events st))"
proof -
  let ?s = "crawl_after (env_netloc env_about) (env_arun env_about) (store_lib env_about)
              (env_db0 env_about) (env_origin env_about) ''https://x.test/'' (Suc 0)"
  let ?cs = "\<lparr>visited = {''https://x.test/'', ''https://x.test/about''}, to_crawl = [],
       crawled_pages = [''https://x.test/''],
       db = db_about @ [\<lparr>row_url = ''https://x.test/'', row_html = ''<html/>'', row_title = ''page'', row_origin_id = ''run''\<rparr>],
       fetch_log = [''https://x.test/'']\<rparr>"
  have popped: "to_crawl ?s = ''https://x.test/about'' # []"
    by (simp add: env_about_fields site_a_db_about_after1)
  have fresh: "''https://x.test/about'' \<notin> visited ?s"
    by (simp add: env_about_fields site_a_db_about_after1)
  have reported: "isCrawled (store_lib env_about) (db ?s) ''https://x.test/about'' = Some True"
    unfolding env_about_fields site_a_db_about_after1
    by (simp add: isCrawled_def execute_def client_simple_def select_eq_url_def db_about_def)
  note t = C3_skip_already_crawled[OF popped fresh reported, unfolded env_about_fields]
  have cw: "crawl_website netloc_simple site_a client_simple db_about ''run'' ''https://x.test/'' = Some ?cs"
    by (rule site_a_db_about_run)
  have one: "\<forall>m. ''https://x.test/about'' \<notin> set (fetch_log
          (crawl_after netloc_simple site_a client_simple db_about ''run'' ''https://x.test/'' m))"
    using t by blast
  have two: "''https://x.test/about'' \<notin> set (fetch_log ?cs) \<and> ''https://x.test/about'' \<notin> set (crawled_pages ?cs) \<and>
      pipeline_items client_simple (db ?cs) ''https://x.test/'' (crawled_pages ?cs)
        = Some (Inr [Url ''https://x.test/''])"
    using t cw by simp
  have run: "process_website env_about ''https://x.test/'' =
      Some (Inr (publish env_about ''https://x.test/'' (collect env_about ''https://x.test/'' ?cs [Url ''https://x.test/''])))"
    using two by (simp add: process_website_def env_about_fields cw run_pipeline_def)
  have three: "Analyzed ''https://x.test/about'' \<notin> set (events
      (publish env_about ''https://x.test/'' (collect env_about ''https://x.test/'' ?cs [Url ''https://x.test/''])))"
    using t cw run by simp
  show ?thesis using one two three cw run by blast
qed

text \<open>
  Claim C3 as stated fails. In that crawl \<open>https://x.test/about\<close> is popped, unvisited and
  reported as crawled, and its HTML is in the store; the crawl returns the start URL alone,
  and the loop of the pipeline iterates over that list, without the stored page.
\<close>

theorem C3_skip_already_crawled_counterexample:
  "to_crawl (crawl_after netloc_simple site_a client_simple db_about ''run'' ''https://x.test/'' (Suc 0))
     = [''https://x.test/about''] \<and>
   ''https://x.test/about'' \<notin> visited (crawl_after netloc_simple site_a client_simple db_about ''run'' ''https://x.test/'' (Suc 0)) \<and>
   isCrawled client_simple (db (crawl_after netloc_simple site_a client_simple db_about ''run'' ''https://x.test/'' (Suc 0)))
     ''https://x.test/about'' = Some True \<and>
   map_option row_html (get_page_from_db client_simple db_about ''https://x.test/about'') = Some ''<html/>'' \<and>
   map_option crawled_pages (crawl_website netloc_simple site_a client_simple db_about ''run'' ''https://x.test/'')
     = Some [''https://x.test/''] \<and>
   pipeline_items client_simple
      (db_about @ [\<lparr>row_url = ''https://x.test/'', row_html = ''<html/>'', row_title = ''page'', row_origin_id = ''run''\<rparr>])
      ''https://x.test/'' [''https://x.test/''] = Some (Inr [Url ''https://x.test/'']) \<and>
   Url ''https://x.test/about'' \<notin> set [Url ''https://x.test/'']"
  unfolding site_a_db_about_after1 site_a_db_about_run
  by (simp add: pipeline_items_def pipeline_source_def iterate_def isCrawled_def execute_def
      client_simple_def select_eq_url_def get_page_from_db_def db_about_def)

section \<open>The cache key\<close>

text \<open>Two known digests: the test vector \<open>abc\<close> of FIPS 180-4, and the key of a page as
  \<open>hashlib\<close> computes it.\<close>

lemma sha256_known_answer:
  "sha256_hexdigest ''abc'' = ''ba7816bf8f01cfea414140de5dae2223b00361a396177a9cb410ff61f20015ad''"
  by code_simp

lemma cache_key_known_answer:
  "get_cache_key ''https://x.test/'' ''<html/>''
     = ''52167d5139f960127cdd7b951836d85f8ad43aa2a38b0deeacafe661cc306094''"
  unfolding get_cache_key_def by code_simp

text \<open>The hexadecimal text of a digest determines the digest.\<close>

lemma hex_digit_inj:
  "a < 16 \<Longrightarrow> b < 16 \<Longrightarrow> ''0123456789abcdef'' ! a = ''0123456789abcdef'' ! b \<Longrightarrow> a = b"
  using nth_eq_iff_index_eq[of "''0123456789abcdef''" a b] by simp

lemma nibble_less: "unat ((x :: w32) AND 15) < 16"
proof -
  have "x AND 15 \<le> 15" by (rule word_and_le1)
  then have "unat (x AND 15) \<le> unat (15 :: w32)" by (simp add: word_le_nat_alt)
  then show ?thesis by simp
qed

lemma fifteen: "(15 :: w32) = mask 4"
  by (simp add: mask_eq_exp_minus_1)

lemma hex_word_inj:
  assumes "hex_word w = hex_word v"
  shows "w = v"
proof (rule bit_word_eqI)
  fix n assume n: "n < LENGTH(32)"
  let ?i = "7 - n div 4"
  have i: "?i \<in> set [0..<8]" by simp
  have "\<forall>i \<in> set [0..<8]. ''0123456789abcdef'' ! unat (drop_bit (4 * (7 - i)) w AND 15)
        = ''0123456789abcdef'' ! unat (drop_bit (4 * (7 - i)) v AND 15)"
    using assms unfolding hex_word_def map_eq_conv .
  then have "''0123456789abcdef'' ! unat (drop_bit (4 * (7 - ?i)) w AND 15)
        = ''0123456789abcdef'' ! unat (drop_bit (4 * (7 - ?i)) v AND 15)"
    using i by blast
  then have "unat (drop_bit (4 * (7 - ?i)) w AND 15) = unat (drop_bit (4 * (7 - ?i)) v AND 15)"
    by (rule hex_digit_inj[OF nibble_less nibble_less])
  then have e: "drop_bit (4 * (7 - ?i)) w AND 15 = drop_bit (4 * (7 - ?i)) v AND 15"
    by (rule word_unat_eq_iff[THEN iffD2])
  have k: "7 - ?i = n div 4" using n by simp
  have "bit (drop_bit (4 * (n div 4)) w AND 15) (n mod 4) = bit (drop_bit (4 * (n div 4)) v AND 15) (n mod 4)"
    using e unfolding k by simp
  moreover have "n mod 4 < 32" by simp
  ultimately show "bit w n = bit v n"
    unfolding fifteen by (simp add: bit_simps)
qed

lemma concat_hex_inj:
  "length xs = length ys \<Longrightarrow> concat (map hex_word xs) = concat (map hex_word ys) \<Longrightarrow> xs = ys"
proof (induction xs ys rule: list_induct2)
  case Nil
  then show ?case by simp
next
  case (Cons x xs y ys)
  have "length (hex_word x) = length (hex_word y)" by (simp add: hex_word_def)
  then have "hex_word x = hex_word y \<and> concat (map hex_word xs) = concat (map hex_word ys)"
    using Cons.prems by simp
  then show ?case using Cons.IH hex_word_inj by blast
qed

lemma sha256_compress_length: "length hs = 8 \<Longrightarrow> length (sha256_compress block hs) = 8"
proof -
  have "length (list_of_regs x) = 8" for x by (cases x rule: list_of_regs.cases) simp
  then show "length hs = 8 \<Longrightarrow> length (sha256_compress block hs) = 8"
    by (simp add: sha256_compress_def)
qed

lemma fold_compress_length: "length hs = 8 \<Longrightarrow> length (fold sha256_compress blocks hs) = 8"
  by (induction blocks arbitrary: hs) (simp_all add: sha256_compress_length)

lemma sha256_length: "length (sha256 bs) = 8"
  by (simp add: sha256_def sha256_H0_def fold_compress_length)

lemma hexdigest_eq_iff:
  "sha256_hexdigest a = sha256_hexdigest b \<longleftrightarrow> sha256 (map of_char a) = sha256 (map of_char b)"
  unfolding sha256_hexdigest_def using concat_hex_inj[of "sha256 (map of_char a)" "sha256 (map of_char b)"]
  by (auto simp: sha256_length)

lemma hexdigest_length: "length (sha256_hexdigest a) = 64"
proof -
  have "length (concat (map hex_word ws)) = 8 * length ws" for ws
    by (induction ws) (simp_all add: hex_word_def)
  then show ?thesis by (simp add: sha256_hexdigest_def sha256_length)
qed

lemma digests_differ:
  "sha256 (map of_char (''https://x.test/'' @ ''<p>1</p>''))
     \<noteq> sha256 (map of_char (''https://x.test/'' @ ''<p>2</p>''))"
  by code_simp

text \<open>
  Claim C4, as amended. The key is the SHA-256 digest of the concatenation of URL and HTML,
  written as 64 hexadecimal digits: the keys of two pairs are equal exactly when the digests
  of their concatenations are equal. Two pairs with the same concatenation therefore have the
  same key, even when both components differ. For a fixed URL, two different HTML texts have
  different keys whenever SHA-256 gives their concatenations different digests.
\<close>

theorem C4_cache_key:
  "(get_cache_key u1 h1 = get_cache_key u2 h2 \<longleftrightarrow>
      sha256 (map of_char (u1 @ h1)) = sha256 (map of_char (u2 @ h2))) \<and>
   (u1 @ h1 = u2 @ h2 \<longrightarrow> get_cache_key u1 h1 = get_cache_key u2 h2) \<and>
   (html1 \<noteq> html2 \<and> sha256 (map of_char (u @ html1)) \<noteq> sha256 (map of_char (u @ html2)) \<longrightarrow>
      get_cache_key u html1 \<noteq> get_cache_key u html2) \<and>
   length (get_cache_key u h) = 64"
  by (simp add: get_cache_key_def hexdigest_eq_iff hexdigest_length del: append_assoc map_append)

text \<open>Two pairs with one concatenation, and two HTML texts under one URL.\<close>

theorem C4_cache_key_witness:
  "get_cache_key ''a'' ''bc'' = get_cache_key ''ab'' ''c'' \<and>
   get_cache_key ''https://x.test/'' ''<p>1</p>'' \<noteq> get_cache_key ''https://x.test/'' ''<p>2</p>''"
  using C4_cache_key[where ?u1.0="''a''" and ?h1.0="''bc''" and ?u2.0="''ab''" and ?h2.0="''c''"
      and ?html1.0="''<p>1</p>''" and ?html2.0="''<p>2</p>''" and u="''https://x.test/''"]
    digests_differ
  by simp

text \<open>Claim C4 as stated fails: two pairs that differ in both components and share a key.\<close>

theorem C4_cache_key_counterexample:
  "(''a'', ''bc'') \<noteq> (''ab'', ''c'') \<and> get_cache_key ''a'' ''bc'' = get_cache_key ''ab'' ''c''"
  by (simp add: get_cache_key_def)

section \<open>Cache reads and writes\<close>



section \<open>The per-URL pipeline\<close>

lemma process_url_registers:
  assumes "stages_succeed e start_url pages u pom_code test_code"
  shows "files_to_add (process_url e start_url pages st u) =
           AList.update (test_file_of start_url u) test_code
             (AList.update (pom_file_of start_url u) pom_code (files_to_add st))"
  using assms unfolding stages_succeed_def process_url_def
  by (auto simp: log_def Let_def split: option.splits)

lemma process_url_skips:
  assumes "\<forall>pom_code test_code. \<not> stages_succeed e start_url pages u pom_code test_code"
  shows "files_to_add (process_url e start_url pages st u) = files_to_add st"
  using assms unfolding stages_succeed_def process_url_def
  by (auto simp: log_def Let_def split: option.splits sum.splits analysis_result.splits)

lemma publish_calls_append: "publish_calls (xs @ ys) = publish_calls xs @ publish_calls ys"
  by (induction xs rule: publish_calls.induct) simp_all

lemma process_url_integrate:
  "publish_calls (events (process_url e start_url pages st u)) = publish_calls (events st)"
  unfolding process_url_def
  by (auto simp: log_def Let_def publish_calls_append split: option.splits sum.splits analysis_result.splits)

lemma process_urls_Cons:
  "process_urls e start_url pages st (u # urls) =
     process_urls e start_url pages (process_url e start_url pages st u) urls"
  by (simp add: process_urls_def)

lemma process_urls_append:
  "process_urls e start_url pages st (xs @ ys) =
     process_urls e start_url pages (process_urls e start_url pages st xs) ys"
  by (simp add: process_urls_def)

lemma process_items_urls:
  "process_items e start_url pages st (map Url urls) = process_urls e start_url pages st urls"
  by (induction urls arbitrary: st) (simp_all add: process_items_def process_urls_def process_item_def)

lemma collect_urls:
  "collect e start_url cs (map Url urls) =
     process_urls e start_url (db cs)
       \<lparr>files_to_add = [],
        events = (if crawled_pages cs = [] then [Printed NoUrlsCrawled, Printed DataFoundInDb] else [])\<rparr>
       urls"
  by (simp add: collect_def process_items_urls)

lemma process_item_integrate:
  "publish_calls (events (process_item e start_url pages st i)) = publish_calls (events st)"
  by (cases i) (simp_all add: process_item_def process_url_integrate log_def publish_calls_append)

lemma process_items_integrate:
  "publish_calls (events (process_items e start_url pages st items)) = publish_calls (events st)"
proof (induction items arbitrary: st)
  case Nil
  show ?case by (simp add: process_items_def)
next
  case (Cons i items)
  have "process_items e start_url pages st (i # items) =
        process_items e start_url pages (process_item e start_url pages st i) items"
    by (simp add: process_items_def)
  then show ?case using Cons.IH process_item_integrate by simp
qed

lemma process_url_keys:
  "fst ` set (files_to_add st) \<subseteq> fst ` set (files_to_add (process_url e start_url pages st u))"
proof (cases "\<exists>pom_code test_code. stages_succeed e start_url pages u pom_code test_code")
  case True
  then obtain pom_code test_code where "stages_succeed e start_url pages u pom_code test_code" by blast
  from process_url_registers[OF this] show ?thesis by (auto simp: AList.dom_update)
next
  case False
  then show ?thesis using process_url_skips by simp
qed

lemma process_urls_keys:
  "fst ` set (files_to_add st) \<subseteq> fst ` set (files_to_add (process_urls e start_url pages st urls))"
proof (induction urls arbitrary: st)
  case Nil
  show ?case by (simp add: process_urls_def)
next
  case (Cons u urls)
  show ?case unfolding process_urls_Cons using process_url_keys Cons.IH by blast
qed

lemma file_names_differ:
  "pom_file_of start_url u \<noteq> test_file_of start_url v"
  "page_path_of start_url u \<noteq> page_path_of start_url v \<Longrightarrow> pom_file_of start_url u \<noteq> pom_file_of start_url v"
  "page_path_of start_url u \<noteq> page_path_of start_url v \<Longrightarrow> test_file_of start_url u \<noteq> test_file_of start_url v"
  by (simp_all add: pom_file_of_def test_file_of_def)

lemma process_url_other_paths:
  assumes "page_path_of start_url z \<noteq> page_path_of start_url y"
  shows "map_of (files_to_add (process_url e start_url pages st z)) (pom_file_of start_url y)
           = map_of (files_to_add st) (pom_file_of start_url y)"
    and "map_of (files_to_add (process_url e start_url pages st z)) (test_file_of start_url y)
           = map_of (files_to_add st) (test_file_of start_url y)"
proof -
  have n: "pom_file_of start_url y \<noteq> pom_file_of start_url z" "pom_file_of start_url y \<noteq> test_file_of start_url z"
    "test_file_of start_url y \<noteq> test_file_of start_url z" "test_file_of start_url y \<noteq> pom_file_of start_url z"
    using file_names_differ[of start_url z y] file_names_differ(1)[of start_url y z] assms by auto
  show "map_of (files_to_add (process_url e start_url pages st z)) (pom_file_of start_url y)
           = map_of (files_to_add st) (pom_file_of start_url y)"
  proof (cases "\<exists>pom_code test_code. stages_succeed e start_url pages z pom_code test_code")
    case True
    then obtain pom_code test_code where "stages_succeed e start_url pages z pom_code test_code" by blast
    from process_url_registers[OF this] show ?thesis using n by (simp add: AList.update_conv')
  next
    case False
    then show ?thesis using process_url_skips by simp
  qed
  show "map_of (files_to_add (process_url e start_url pages st z)) (test_file_of start_url y)
           = map_of (files_to_add st) (test_file_of start_url y)"
  proof (cases "\<exists>pom_code test_code. stages_succeed e start_url pages z pom_code test_code")
    case True
    then obtain pom_code test_code where "stages_succeed e start_url pages z pom_code test_code" by blast
    from process_url_registers[OF this] show ?thesis using n by (simp add: AList.update_conv')
  next
    case False
    then show ?thesis using process_url_skips by simp
  qed
qed

lemma process_urls_other_paths:
  assumes "\<forall>z \<in> set zs. page_path_of start_url z \<noteq> page_path_of start_url y"
  shows "map_of (files_to_add (process_urls e start_url pages st zs)) (pom_file_of start_url y)
           = map_of (files_to_add st) (pom_file_of start_url y) \<and>
         map_of (files_to_add (process_urls e start_url pages st zs)) (test_file_of start_url y)
           = map_of (files_to_add st) (test_file_of start_url y)"
  using assms
proof (induction zs arbitrary: st)
  case Nil
  show ?case by (simp add: process_urls_def)
next
  case (Cons z zs)
  then show ?case unfolding process_urls_Cons by (simp add: process_url_other_paths)
qed

lemma contributes_keys:
  assumes "y \<in> set urls" "stages_succeed e start_url pages y pom_code test_code"
  shows "pom_file_of start_url y \<in> fst ` set (files_to_add (process_urls e start_url pages st urls)) \<and>
         test_file_of start_url y \<in> fst ` set (files_to_add (process_urls e start_url pages st urls))"
proof -
  obtain ys1 ys2 where s: "urls = ys1 @ y # ys2" using assms(1) by (meson split_list)
  let ?st1 = "process_urls e start_url pages st ys1"
  have "pom_file_of start_url y \<in> fst ` set (files_to_add (process_url e start_url pages ?st1 y))"
    "test_file_of start_url y \<in> fst ` set (files_to_add (process_url e start_url pages ?st1 y))"
    unfolding process_url_registers[OF assms(2)] by (simp_all add: AList.dom_update)
  then show ?thesis
    unfolding s process_urls_append process_urls_Cons using process_urls_keys by blast
qed

lemma contributes_contents:
  assumes "stages_succeed e start_url pages y pom_code test_code"
    and "\<forall>z \<in> set ys2. page_path_of start_url z \<noteq> page_path_of start_url y"
  shows "map_of (files_to_add (process_urls e start_url pages st (ys1 @ y # ys2))) (pom_file_of start_url y) = Some pom_code \<and>
         map_of (files_to_add (process_urls e start_url pages st (ys1 @ y # ys2))) (test_file_of start_url y) = Some test_code"
proof -
  let ?st1 = "process_urls e start_url pages st ys1"
  have "map_of (files_to_add (process_url e start_url pages ?st1 y)) (pom_file_of start_url y) = Some pom_code"
    "map_of (files_to_add (process_url e start_url pages ?st1 y)) (test_file_of start_url y) = Some test_code"
    unfolding process_url_registers[OF assms(1)]
    using file_names_differ(1)[of start_url y y] by (simp_all add: AList.update_conv')
  then show ?thesis
    unfolding process_urls_append process_urls_Cons
    using process_urls_other_paths[OF assms(2)] by simp
qed

text \<open>
  Claim C6. Whatever happens to a URL \<open>X\<close> of the list (any of its stages may raise or fail),
  the loop hands the state \<open>X\<close> left to the URLs after it and processes each of them; when
  \<open>X\<close> fails before its files are registered it leaves the collected map as it was. Every
  URL after \<open>X\<close> whose own stages succeed has its page-object file and its test file in the
  collected map at the end, with its own contents unless a later URL maps to the same path.
  No exception of the loop reaches the run: once the loop has its list of URLs and the output
  directory exists, the run returns what the publish step returns on the state the loop over
  these URLs ends in.
\<close>

theorem C6_failure_isolation:
  "process_urls e start_url pages st (xs @ X # ys) =
      process_urls e start_url pages
        (process_url e start_url pages (process_urls e start_url pages st xs) X) ys \<and>
   ((\<forall>pom_code test_code. \<not> stages_succeed e start_url pages X pom_code test_code) \<longrightarrow>
      files_to_add (process_url e start_url pages st' X) = files_to_add st') \<and>
   (\<forall>Y pom_code test_code.
      Y \<in> set ys \<and> stages_succeed e start_url pages Y pom_code test_code \<longrightarrow>
        pom_file_of start_url Y \<in> fst ` set (files_to_add (process_urls e start_url pages st (xs @ X # ys))) \<and>
        test_file_of start_url Y \<in> fst ` set (files_to_add (process_urls e start_url pages st (xs @ X # ys)))) \<and>
   (\<forall>ys1 Y ys2 pom_code test_code.
      ys = ys1 @ Y # ys2 \<and> stages_succeed e start_url pages Y pom_code test_code \<and>
      (\<forall>Z \<in> set ys2. page_path_of start_url Z \<noteq> page_path_of start_url Y) \<longrightarrow>
        map_of (files_to_add (process_urls e start_url pages st (xs @ X # ys))) (pom_file_of start_url Y)
          = Some pom_code \<and>
        map_of (files_to_add (process_urls e start_url pages st (xs @ X # ys))) (test_file_of start_url Y)
          = Some test_code) \<and>
   (pipeline_items (store_lib e) (db cs) start_url (crawled_pages cs) = Some (Inr (map Url (xs @ X # ys))) \<and>
    makedirs e (output_dir_of start_url) = None \<longrightarrow>
      run_pipeline e start_url cs
        = Inr (publish e start_url (collect e start_url cs (map Url (xs @ X # ys)))) \<and>
      collect e start_url cs (map Url (xs @ X # ys))
        = process_urls e start_url (db cs)
            \<lparr>files_to_add = [],
             events = (if crawled_pages cs = [] then [Printed NoUrlsCrawled, Printed DataFoundInDb] else [])\<rparr>
            (xs @ X # ys))"
proof (intro conjI allI impI)
  show "process_urls e start_url pages st (xs @ X # ys) =
      process_urls e start_url pages
        (process_url e start_url pages (process_urls e start_url pages st xs) X) ys"
    by (simp add: process_urls_append process_urls_Cons)
next
  assume "\<forall>pom_code test_code. \<not> stages_succeed e start_url pages X pom_code test_code"
  then show "files_to_add (process_url e start_url pages st' X) = files_to_add st'"
    by (rule process_url_skips)
next
  fix Y pom_code test_code
  assume a: "Y \<in> set ys \<and> stages_succeed e start_url pages Y pom_code test_code"
  then have "Y \<in> set (xs @ X # ys)" by simp
  from contributes_keys[OF this] a
  show "pom_file_of start_url Y \<in> fst ` set (files_to_add (process_urls e start_url pages st (xs @ X # ys)))"
    and "test_file_of start_url Y \<in> fst ` set (files_to_add (process_urls e start_url pages st (xs @ X # ys)))"
    by blast+
next
  fix ys1 Y ys2 pom_code test_code
  assume a: "ys = ys1 @ Y # ys2 \<and> stages_succeed e start_url pages Y pom_code test_code \<and>
      (\<forall>Z \<in> set ys2. page_path_of start_url Z \<noteq> page_path_of start_url Y)"
  then have e: "xs @ X # ys = (xs @ X # ys1) @ Y # ys2" by simp
  from a contributes_contents[of e start_url pages Y pom_code test_code ys2 st "xs @ X # ys1"]
  show "map_of (files_to_add (process_urls e start_url pages st (xs @ X # ys))) (pom_file_of start_url Y)
          = Some pom_code"
    and "map_of (files_to_add (process_urls e start_url pages st (xs @ X # ys))) (test_file_of start_url Y)
          = Some test_code"
    unfolding e by blast+
next
  assume "pipeline_items (store_lib e) (db cs) start_url (crawled_pages cs) = Some (Inr (map Url (xs @ X # ys))) \<and>
    makedirs e (output_dir_of start_url) = None"
  then show "run_pipeline e start_url cs
        = Inr (publish e start_url (collect e start_url cs (map Url (xs @ X # ys))))"
    by (simp add: run_pipeline_def)
next
  show "collect e start_url cs (map Url (xs @ X # ys))
        = process_urls e start_url (db cs)
            \<lparr>files_to_add = [],
             events = (if crawled_pages cs = [] then [Printed NoUrlsCrawled, Printed DataFoundInDb] else [])\<rparr>
            (xs @ X # ys)"
    by (rule collect_urls)
qed

lemma good_path: "page_path_of ''https://x.test/'' ''https://x.test/good'' = ''good''"
  by (simp add: page_path_of_def py_replace_def py_strip_def)

lemma home_path: "page_path_of ''https://x.test/'' ''https://x.test/'' = ''home''"
  by (simp add: page_path_of_def py_replace_def py_strip_def)

lemma out_dir: "output_dir_of ''https://x.test/'' = ''outputs/x.test_''"
  by (simp add: output_dir_of_def py_replace_def)

lemma good_succeeds:
  "stages_succeed env_bad_analysis ''https://x.test/'' db_two ''https://x.test/good'' ''class HomePage {}'' ''test()''"
  unfolding stages_succeed_def
  by (simp add: env_bad_analysis_def env_ok_def db_two_def get_page_from_db_def execute_def client_simple_def select_eq_url_def
      validation_step_def validate_test_cases_def json_dumps_def validator_ok_def normalize_test_case_def)

lemma bad_fails:
  "\<not> stages_succeed env_bad_analysis ''https://x.test/'' db_two ''https://x.test/bad'' pom_code test_code"
  unfolding stages_succeed_def
  by (simp add: env_bad_analysis_def env_ok_def db_two_def get_page_from_db_def execute_def client_simple_def select_eq_url_def)

text \<open>The analysis raises for the first of two URLs; the second contributes its two files.\<close>

theorem C6_failure_isolation_witness:
  "files_to_add (process_url env_bad_analysis ''https://x.test/'' db_two \<lparr>files_to_add = [], events = []\<rparr> ''https://x.test/bad'') = [] \<and>
   map_of (files_to_add (process_urls env_bad_analysis ''https://x.test/'' db_two \<lparr>files_to_add = [], events = []\<rparr>
      [''https://x.test/bad'', ''https://x.test/good''])) (pom_file_of ''https://x.test/'' ''https://x.test/good'')
     = Some ''class HomePage {}'' \<and>
   map_of (files_to_add (process_urls env_bad_analysis ''https://x.test/'' db_two \<lparr>files_to_add = [], events = []\<rparr>
      [''https://x.test/bad'', ''https://x.test/good''])) (test_file_of ''https://x.test/'' ''https://x.test/good'')
     = Some ''test()''"
proof -
  note t = C6_failure_isolation[where e=env_bad_analysis and start_url="''https://x.test/''" and pages=db_two
      and st="\<lparr>files_to_add = [], events = []\<rparr>" and st'="\<lparr>files_to_add = [], events = []\<rparr>"
      and xs="[]" and X="''https://x.test/bad''" and ys="[''https://x.test/good'']"]
  have a: "files_to_add (process_url env_bad_analysis ''https://x.test/'' db_two
      \<lparr>files_to_add = [], events = []\<rparr> ''https://x.test/bad'') = []"
    using t[THEN conjunct2, THEN conjunct1] bad_fails by simp
  have b: "map_of (files_to_add (process_urls env_bad_analysis ''https://x.test/'' db_two \<lparr>files_to_add = [], events = []\<rparr>
      ([] @ ''https://x.test/bad'' # [''https://x.test/good'']))) (pom_file_of ''https://x.test/'' ''https://x.test/good'')
     = Some ''class HomePage {}'' \<and>
   map_of (files_to_add (process_urls env_bad_analysis ''https://x.test/'' db_two \<lparr>files_to_add = [], events = []\<rparr>
      ([] @ ''https://x.test/bad'' # [''https://x.test/good'']))) (test_file_of ''https://x.test/'' ''https://x.test/good'')
     = Some ''test()''"
    by (rule t[THEN conjunct2, THEN conjunct2, THEN conjunct2, THEN conjunct1, rule_format,
          of "[]" "''https://x.test/good''" "[]"]) (simp add: good_succeeds)
  show ?thesis using a b by simp
qed

section \<open>The publish step\<close>

lemma publish_files: "files_to_add (publish e start_url st) = files_to_add st"
  by (simp add: publish_def log_def split: prod.splits sum.splits)

lemma publish_integrate:
  "publish_calls (events (publish e start_url st)) =
     publish_calls (events st) @ (if files_to_add st = [] then [] else [files_to_add st])"
  by (simp add: publish_def log_def publish_calls_append split: prod.splits sum.splits)

lemma collect_integrate: "publish_calls (events (collect e start_url cs items)) = []"
  by (simp add: collect_def process_items_integrate)

lemma run_pipeline_integrate:
  assumes "run_pipeline e start_url cs = Inr st"
  shows "publish_calls (events st) = (if files_to_add st = [] then [] else [files_to_add st])"
  using assms
  by (auto simp: run_pipeline_def publish_integrate publish_files collect_integrate
      split: option.splits sum.splits)

lemma site_single_run:
  "crawl_website netloc_simple site_single client_simple [] ''run'' ''https://x.test/'' =
     Some \<lparr>visited = {''https://x.test/''}, to_crawl = [],
       crawled_pages = [''https://x.test/''],
       db = [\<lparr>row_url = ''https://x.test/'', row_html = ''<html/>'', row_title = ''page'', row_origin_id = ''run''\<rparr>],
       fetch_log = [''https://x.test/'']\<rparr>"
  by (simp add: crawl_website_def crawl_loop_done crawl_loop_step run_simps site_single_def)

lemma process_home_ok:
  assumes "analyze_page e = analyze_page env_ok" "generate_test_code e = generate_test_code env_ok"
    "validator e = validator env_ok" "makedirs e = makedirs env_ok" "write_file e = write_file env_ok"
    "generate_outputs e = generate_outputs env_ok" "store_lib e = store_lib env_ok"
  shows "process_url e ''https://x.test/'' db_single \<lparr>files_to_add = [], events = []\<rparr> ''https://x.test/''
     = \<lparr>files_to_add = files_home, events = events_home\<rparr>"
  using assms
  by (simp add: process_url_def env_ok_def db_single_def get_page_from_db_def execute_def client_simple_def select_eq_url_def
      validation_step_def validate_test_cases_def json_dumps_def validator_ok_def normalize_test_case_def
      log_def home_path out_dir pom_file_of_def test_file_of_def validation_path_of_def safe_path_of_def
      py_replace_def files_home_def events_home_def)

lemma collect_single:
  assumes "analyze_page e = analyze_page env_ok" "generate_test_code e = generate_test_code env_ok"
    "validator e = validator env_ok" "makedirs e = makedirs env_ok" "write_file e = write_file env_ok"
    "generate_outputs e = generate_outputs env_ok" "store_lib e = store_lib env_ok"
  shows "collect e ''https://x.test/'' cs_single [Url ''https://x.test/'']
     = \<lparr>files_to_add = files_home, events = events_home\<rparr>"
  using process_home_ok[OF assms]
  by (simp add: collect_def process_items_def process_item_def cs_single_def)

lemma integrate_home_ok:
  "integrate_with_repo git_ok (Some ''https://github.com/org/repo'') files_home =
     (Inr (), [Cloned, BranchCreated, FileAdded ''pages/home.page.ts'' ''class HomePage {}'',
               FileAdded ''tests/home.test.ts'' ''test()'', Pushed, CleanedUp])"
  by (simp add: integrate_with_repo_def integrate_try_def git_ok_def files_home_def)

lemma integrate_home_push_fails:
  "integrate_with_repo (git_ok\<lparr>commit_push := Some GitCommandError\<rparr>) (Some ''https://github.com/org/repo'') files_home =
     (Inl GitCommandError, [Cloned, BranchCreated, FileAdded ''pages/home.page.ts'' ''class HomePage {}'',
               FileAdded ''tests/home.test.ts'' ''test()'', PrintedIntegrationError GitCommandError, CleanedUp])"
  by (simp add: integrate_with_repo_def integrate_try_def git_ok_def files_home_def)

lemma crawl_single:
  assumes "env_netloc e = netloc_simple" "env_arun e = site_single" "store_lib e = client_simple"
    "env_db0 e = []" "env_origin e = ''run''"
  shows "crawl_website (env_netloc e) (env_arun e) (store_lib e) (env_db0 e) (env_origin e) ''https://x.test/''
           = Some cs_single"
  unfolding assms using site_single_run by (simp add: cs_single_def db_single_def)

lemma pipeline_items_single:
  "pipeline_items lib (db cs_single) ''https://x.test/'' (crawled_pages cs_single)
     = Some (Inr [Url ''https://x.test/''])"
  by (simp add: pipeline_items_def pipeline_source_def iterate_def cs_single_def)

lemma run_single:
  assumes "env_netloc e = netloc_simple" "env_arun e = site_single" "store_lib e = client_simple"
    "env_db0 e = []" "env_origin e = ''run''"
    and "supabase_configured e" and "makedirs e ''outputs/x.test_'' = None"
  shows "process_website e ''https://x.test/'' =
           Some (Inr (publish e ''https://x.test/'' (collect e ''https://x.test/'' cs_single [Url ''https://x.test/''])))"
  unfolding process_website_def crawl_single[OF assms(1-5)]
  using assms(6,7) by (simp add: run_pipeline_def pipeline_items_single out_dir)

lemma env_ok_run:
  "process_website env_ok ''https://x.test/'' =
     Some (Inr \<lparr>files_to_add = files_home,
                events = events_home @
                  [IntegrateCalled files_home
                     [Cloned, BranchCreated, FileAdded ''pages/home.page.ts'' ''class HomePage {}'',
                      FileAdded ''tests/home.test.ts'' ''test()'', Pushed, CleanedUp],
                   Printed (ProcessingCompleted ''https://x.test/'')]\<rparr>)"
proof -
  have r: "process_website env_ok ''https://x.test/'' =
           Some (Inr (publish env_ok ''https://x.test/'' (collect env_ok ''https://x.test/'' cs_single [Url ''https://x.test/''])))"
    by (rule run_single) (simp_all add: env_ok_def)
  have c: "collect env_ok ''https://x.test/'' cs_single [Url ''https://x.test/'']
     = \<lparr>files_to_add = files_home, events = events_home\<rparr>"
    by (rule collect_single) simp_all
  have g: "git env_ok = git_ok" "REPO_URL env_ok = Some ''https://github.com/org/repo''"
    by (simp_all add: env_ok_def)
  have f: "files_home \<noteq> []" by (simp add: files_home_def)
  show ?thesis unfolding r c by (simp add: publish_def g integrate_home_ok f log_def)
qed

lemma env_push_fails_run:
  "process_website env_push_fails ''https://x.test/'' =
     Some (Inr \<lparr>files_to_add = files_home,
                events = events_home @
                  [IntegrateCalled files_home
                     [Cloned, BranchCreated, FileAdded ''pages/home.page.ts'' ''class HomePage {}'',
                      FileAdded ''tests/home.test.ts'' ''test()'',
                      PrintedIntegrationError GitCommandError, CleanedUp],
                   Printed (IntegrationErrorFor GitCommandError)]\<rparr>)"
proof -
  have r: "process_website env_push_fails ''https://x.test/'' =
           Some (Inr (publish env_push_fails ''https://x.test/'' (collect env_push_fails ''https://x.test/'' cs_single [Url ''https://x.test/''])))"
    by (rule run_single) (simp_all add: env_push_fails_def env_ok_def)
  have c: "collect env_push_fails ''https://x.test/'' cs_single [Url ''https://x.test/'']
     = \<lparr>files_to_add = files_home, events = events_home\<rparr>"
    by (rule collect_single) (simp_all add: env_push_fails_def)
  have g: "git env_push_fails = git_ok\<lparr>commit_push := Some GitCommandError\<rparr>"
    "REPO_URL env_push_fails = Some ''https://github.com/org/repo''"
    by (simp_all add: env_push_fails_def env_ok_def)
  have f: "files_home \<noteq> []" by (simp add: files_home_def)
  show ?thesis unfolding r c by (simp add: publish_def g integrate_home_push_fails f log_def)
qed

lemma process_home_write_fails:
  "process_url env_write_fails ''https://x.test/'' db_single \<lparr>files_to_add = [], events = []\<rparr> ''https://x.test/''
     = \<lparr>files_to_add = [],
        events = [Analyzed ''https://x.test/'', TestCodeGenerated ''https://x.test/'',
                  ValidationRequested ''https://x.test/'',
                  Printed (ValidationErrorFor ''https://x.test/'' OSError)]\<rparr>"
  by (simp add: process_url_def env_write_fails_def env_ok_def db_single_def get_page_from_db_def execute_def client_simple_def select_eq_url_def
      validation_step_def validate_test_cases_def json_dumps_def validator_ok_def normalize_test_case_def
      log_def)

lemma env_write_fails_run:
  "process_website env_write_fails ''https://x.test/'' =
     Some (Inr \<lparr>files_to_add = [],
                events = [Analyzed ''https://x.test/'', TestCodeGenerated ''https://x.test/'',
                  ValidationRequested ''https://x.test/'',
                  Printed (ValidationErrorFor ''https://x.test/'' OSError),
                  Printed NoFilesGenerated]\<rparr>)"
proof -
  have r: "process_website env_write_fails ''https://x.test/'' =
           Some (Inr (publish env_write_fails ''https://x.test/'' (collect env_write_fails ''https://x.test/'' cs_single [Url ''https://x.test/''])))"
    by (rule run_single) (simp_all add: env_write_fails_def env_ok_def)
  have c: "collect env_write_fails ''https://x.test/'' cs_single [Url ''https://x.test/'']
     = \<lparr>files_to_add = [],
        events = [Analyzed ''https://x.test/'', TestCodeGenerated ''https://x.test/'',
                  ValidationRequested ''https://x.test/'',
                  Printed (ValidationErrorFor ''https://x.test/'' OSError)]\<rparr>"
    using process_home_write_fails
    by (simp add: collect_def process_items_def process_item_def cs_single_def)
  show ?thesis unfolding r c by (simp add: publish_def log_def)
qed

text \<open>
  Claim C7. A run that returns has called \<open>integrate_with_repo\<close> exactly once, with the
  collected map, when that map is not empty at the end of the loop, and not at all when it is
  empty. When the crawl returns, the loop has its items and the output directory exists, the
  run does return, with the map the loop collected.
\<close>

theorem C7_publish_once:
  "(process_website e start_url = Some (Inr st) \<longrightarrow>
      publish_calls (events st) = (if files_to_add st = [] then [] else [files_to_add st])) \<and>
   (supabase_configured e \<and>
    crawl_website (env_netloc e) (env_arun e) (store_lib e) (env_db0 e) (env_origin e) start_url = Some cs \<and>
    pipeline_items (store_lib e) (db cs) start_url (crawled_pages cs) = Some (Inr items) \<and>
    makedirs e (output_dir_of start_url) = None \<longrightarrow>
      (\<exists>st'. process_website e start_url = Some (Inr st') \<and>
             files_to_add st' = files_to_add (collect e start_url cs items)))"
proof (intro conjI impI)
  assume r: "process_website e start_url = Some (Inr st)"
  then obtain cs' where "run_pipeline e start_url cs' = Inr st"
    by (auto simp: process_website_def split: if_splits option.splits)
  then show "publish_calls (events st) = (if files_to_add st = [] then [] else [files_to_add st])"
    by (rule run_pipeline_integrate)
next
  assume "supabase_configured e \<and>
    crawl_website (env_netloc e) (env_arun e) (store_lib e) (env_db0 e) (env_origin e) start_url = Some cs \<and>
    pipeline_items (store_lib e) (db cs) start_url (crawled_pages cs) = Some (Inr items) \<and>
    makedirs e (output_dir_of start_url) = None"
  then have "process_website e start_url = Some (Inr (publish e start_url (collect e start_url cs items)))"
    by (simp add: process_website_def run_pipeline_def)
  then show "\<exists>st'. process_website e start_url = Some (Inr st') \<and>
             files_to_add st' = files_to_add (collect e start_url cs items)"
    by (simp add: publish_files)
qed

text \<open>A run that collects two files publishes once; a run that collects none does not
  publish.\<close>

theorem C7_publish_once_witness:
  "process_website env_ok ''https://x.test/'' =
     Some (Inr \<lparr>files_to_add = files_home,
                events = events_home @
                  [IntegrateCalled files_home
                     [Cloned, BranchCreated, FileAdded ''pages/home.page.ts'' ''class HomePage {}'',
                      FileAdded ''tests/home.test.ts'' ''test()'', Pushed, CleanedUp],
                   Printed (ProcessingCompleted ''https://x.test/'')]\<rparr>) \<and>
   publish_calls (events_home @
                  [IntegrateCalled files_home
                     [Cloned, BranchCreated, FileAdded ''pages/home.page.ts'' ''class HomePage {}'',
                      FileAdded ''tests/home.test.ts'' ''test()'', Pushed, CleanedUp],
                   Printed (ProcessingCompleted ''https://x.test/'')]) = [files_home] \<and>
   publish_calls [Analyzed ''https://x.test/'', TestCodeGenerated ''https://x.test/'',
                  ValidationRequested ''https://x.test/'',
                  Printed (ValidationErrorFor ''https://x.test/'' OSError),
                  Printed NoFilesGenerated] = []"
  using C7_publish_once[THEN conjunct1, rule_format, OF env_ok_run]
    C7_publish_once[THEN conjunct1, rule_format, OF env_write_fails_run] env_ok_run
  by (simp add: files_home_def)

text \<open>
  Claim C8, as amended. When \<open>integrate_with_repo\<close> raises in the final step, \<open>process_website\<close>
  catches the exception, prints it and returns: the run ends without raising. The publisher
  has been called once, it is not called again, and nothing else is done after it.
\<close>

theorem C8_publish_failure_caught:
  assumes "supabase_configured e"
    and "crawl_website (env_netloc e) (env_arun e) (store_lib e) (env_db0 e) (env_origin e) start_url = Some cs"
    and "pipeline_items (store_lib e) (db cs) start_url (crawled_pages cs) = Some (Inr items)"
    and "makedirs e (output_dir_of start_url) = None"
    and "files_to_add (collect e start_url cs items) \<noteq> []"
    and "integrate_with_repo (git e) (REPO_URL e) (files_to_add (collect e start_url cs items)) = (Inl x, revs)"
  shows "process_website e start_url =
           Some (Inr (log [IntegrateCalled (files_to_add (collect e start_url cs items)) revs,
                           Printed (IntegrationErrorFor x)]
                        (collect e start_url cs items))) \<and>
         publish_calls
           (events (log [IntegrateCalled (files_to_add (collect e start_url cs items)) revs,
                         Printed (IntegrationErrorFor x)]
                      (collect e start_url cs items))) = [files_to_add (collect e start_url cs items)]"
  using assms
  by (simp add: process_website_def run_pipeline_def publish_def log_def collect_integrate
      publish_calls_append)

text \<open>The push fails with GitCommandError; the run returns with the error printed.\<close>

theorem C8_publish_failure_caught_witness:
  "process_website env_push_fails ''https://x.test/'' =
     Some (Inr (log [IntegrateCalled files_home
                       [Cloned, BranchCreated, FileAdded ''pages/home.page.ts'' ''class HomePage {}'',
                        FileAdded ''tests/home.test.ts'' ''test()'',
                        PrintedIntegrationError GitCommandError, CleanedUp],
                     Printed (IntegrationErrorFor GitCommandError)]
                  \<lparr>files_to_add = files_home, events = events_home\<rparr>))"
proof -
  have c: "collect env_push_fails ''https://x.test/'' cs_single [Url ''https://x.test/'']
     = \<lparr>files_to_add = files_home, events = events_home\<rparr>"
    by (rule collect_single) (simp_all add: env_push_fails_def)
  have g: "git env_push_fails = git_ok\<lparr>commit_push := Some GitCommandError\<rparr>"
    "REPO_URL env_push_fails = Some ''https://github.com/org/repo''"
    by (simp_all add: env_push_fails_def env_ok_def)
  have a1: "supabase_configured env_push_fails"
    and a4: "makedirs env_push_fails (output_dir_of ''https://x.test/'') = None"
    by (simp_all add: env_push_fails_def env_ok_def)
  have a2: "crawl_website (env_netloc env_push_fails) (env_arun env_push_fails) (store_lib env_push_fails)
      (env_db0 env_push_fails) (env_origin env_push_fails) ''https://x.test/'' = Some cs_single"
    by (rule crawl_single) (simp_all add: env_push_fails_def env_ok_def)
  have a5: "files_to_add (collect env_push_fails ''https://x.test/'' cs_single [Url ''https://x.test/'']) \<noteq> []"
    by (simp add: c files_home_def)
  have a6: "integrate_with_repo (git env_push_fails) (REPO_URL env_push_fails)
      (files_to_add (collect env_push_fails ''https://x.test/'' cs_single [Url ''https://x.test/''])) =
     (Inl GitCommandError, [Cloned, BranchCreated, FileAdded ''pages/home.page.ts'' ''class HomePage {}'',
               FileAdded ''tests/home.test.ts'' ''test()'', PrintedIntegrationError GitCommandError, CleanedUp])"
    by (simp add: c g integrate_home_push_fails)
  show ?thesis
    using C8_publish_failure_caught[OF a1 a2 pipeline_items_single a4 a5 a6] by (simp add: c)
qed

text \<open>
  Claim C8 as stated fails: the publisher raises GitCommandError, and the run does not end
  with that error but returns.
\<close>

theorem C8_publish_failure_counterexample:
  "integrate_with_repo (git env_push_fails) (REPO_URL env_push_fails) files_home =
     (Inl GitCommandError, [Cloned, BranchCreated, FileAdded ''pages/home.page.ts'' ''class HomePage {}'',
               FileAdded ''tests/home.test.ts'' ''test()'', PrintedIntegrationError GitCommandError, CleanedUp]) \<and>
   process_website env_push_fails ''https://x.test/'' =
     Some (Inr \<lparr>files_to_add = files_home,
                events = events_home @
                  [IntegrateCalled files_home
                     [Cloned, BranchCreated, FileAdded ''pages/home.page.ts'' ''class HomePage {}'',
                      FileAdded ''tests/home.test.ts'' ''test()'',
                      PrintedIntegrationError GitCommandError, CleanedUp],
                   Printed (IntegrationErrorFor GitCommandError)]\<rparr>) \<and>
   process_website env_push_fails ''https://x.test/'' \<noteq> Some (Inl GitCommandError)"
proof -
  have g: "git env_push_fails = git_ok\<lparr>commit_push := Some GitCommandError\<rparr>"
    "REPO_URL env_push_fails = Some ''https://github.com/org/repo''"
    by (simp_all add: env_push_fails_def env_ok_def)
  show ?thesis unfolding env_push_fails_run g using integrate_home_push_fails by simp
qed

section \<open>Validation\<close>

text \<open>
  Claim C9, as amended. When the validation step of a URL raises (the validator call or the
  writing of the feedback file), the exception is caught and printed, no file of that URL is
  registered in the collected map, the JSON and Markdown outputs are not generated for it, and
  the loop goes on with the next URL. The test code of the URL has been generated by then,
  before the validation, and is dropped.
\<close>

theorem C9_validation_failure:
  assumes "get_page_from_db (store_lib e) pages u = Some q" and "row_html q \<noteq> []"
    and "analyze_page e (row_html q) u = Inr (Analysis tcs pom_code)" and "tcs \<noteq> []" and "pom_code \<noteq> []"
    and "generate_test_code e (map normalize_test_case tcs) pom_code u = Inr test_code"
    and "test_code \<noteq> []"
    and "validation_step e start_url u (map normalize_test_case tcs) pom_code = Inl x"
  shows "events (process_url e start_url pages st u) =
           events st @ [Analyzed u, TestCodeGenerated u, ValidationRequested u,
                        Printed (ValidationErrorFor u x)] \<and>
         files_to_add (process_url e start_url pages st u) = files_to_add st \<and>
         process_urls e start_url pages st (u # rest) =
           process_urls e start_url pages
             (log [Analyzed u, TestCodeGenerated u, ValidationRequested u,
                   Printed (ValidationErrorFor u x)] st) rest"
  using assms
  by (simp add: process_url_def process_urls_def log_def)

text \<open>The feedback file cannot be written.\<close>

theorem C9_validation_failure_witness:
  "events (process_url env_write_fails ''https://x.test/'' db_single \<lparr>files_to_add = [], events = []\<rparr> ''https://x.test/'') =
      [Analyzed ''https://x.test/'', TestCodeGenerated ''https://x.test/'',
       ValidationRequested ''https://x.test/'', Printed (ValidationErrorFor ''https://x.test/'' OSError)] \<and>
   files_to_add (process_url env_write_fails ''https://x.test/'' db_single \<lparr>files_to_add = [], events = []\<rparr> ''https://x.test/'') = []"
  using C9_validation_failure[where e=env_write_fails and pages=db_single and u="''https://x.test/''"
      and start_url="''https://x.test/''" and x=OSError and st="\<lparr>files_to_add = [], events = []\<rparr>"
      and q="\<lparr>row_url = ''https://x.test/'', row_html = ''<html/>'', row_title = ''page'', row_origin_id = ''run''\<rparr>"
      and tcs="[[(''title'', PyStr ''loads'')]]" and pom_code="''class HomePage {}''" and test_code="''test()''"]
  by (simp add: env_write_fails_def env_ok_def db_single_def get_page_from_db_def execute_def client_simple_def select_eq_url_def
      validation_step_def validate_test_cases_def json_dumps_def validator_ok_def normalize_test_case_def)

text \<open>
  Claim C9 as stated fails: the validation step of the URL raises, and the generation of its
  test code has not been skipped, it has taken place.
\<close>

theorem C9_validation_failure_counterexample:
  "validation_step env_write_fails ''https://x.test/'' ''https://x.test/''
      (map normalize_test_case [[(''title'', PyStr ''loads'')]]) ''class HomePage {}'' = Inl OSError \<and>
   process_url env_write_fails ''https://x.test/'' db_single \<lparr>files_to_add = [], events = []\<rparr> ''https://x.test/''
     = \<lparr>files_to_add = [],
        events = [Analyzed ''https://x.test/'', TestCodeGenerated ''https://x.test/'',
                  ValidationRequested ''https://x.test/'',
                  Printed (ValidationErrorFor ''https://x.test/'' OSError)]\<rparr> \<and>
   TestCodeGenerated ''https://x.test/'' \<in> set (events
     (process_url env_write_fails ''https://x.test/'' db_single \<lparr>files_to_add = [], events = []\<rparr> ''https://x.test/''))"
  unfolding process_home_write_fails
  by (simp add: env_write_fails_def env_ok_def
      validation_step_def validate_test_cases_def json_dumps_def validator_ok_def normalize_test_case_def)

text \<open>
  Claim C10, as amended. \<open>validate_test_cases\<close> never hands an exception of the model call on
  to its caller: when \<open>llm.invoke\<close> raises it returns the fixed text, so that, with test cases
  that serialize and a feedback file that can be written, the validation step of the
  orchestrator succeeds whatever the model call does. It does raise to its caller, with the
  TypeError of \<open>json.dumps\<close>, when the test cases hold a value that JSON cannot write; that
  happens before the \<open>try\<close>.
\<close>

theorem C10_validate_catches_llm:
  "validate_test_cases venv test_cases pom_code =
     (if json_serializable (PyList (map PyDict test_cases))
      then Inr (case llm_invoke venv
                       (prompt_format venv (json_text venv (PyList (map PyDict test_cases))) pom_code) of
                  Inr content \<Rightarrow> content
                | Inl x \<Rightarrow> ''Validation failed due to an error.'')
      else Inl TypeError) \<and>
   (json_serializable (PyList (map PyDict test_cases)) \<and>
    makedirs e (output_dir_of start_url) = None \<and>
    write_file e (validation_path_of start_url u) = (\<lambda>content. None) \<longrightarrow>
      (\<exists>feedback. validation_step e start_url u test_cases pom_code = Inr feedback))"
  by (simp add: validation_step_def validate_test_cases_def json_dumps_def Let_def split: sum.splits)

text \<open>The model call raises; the validator returns the fixed text and the step succeeds.\<close>

theorem C10_validate_catches_llm_witness:
  "validate_test_cases validator_llm_down [[(''title'', PyStr ''loads'')]] ''class HomePage {}''
     = Inr ''Validation failed due to an error.'' \<and>
   (\<exists>feedback. validation_step env_llm_down ''https://x.test/'' ''https://x.test/''
      [[(''title'', PyStr ''loads'')]] ''class HomePage {}'' = Inr feedback)"
  using C10_validate_catches_llm[where venv=validator_llm_down and test_cases="[[(''title'', PyStr ''loads'')]]"
      and pom_code="''class HomePage {}''" and e=env_llm_down and start_url="''https://x.test/''"
      and u="''https://x.test/''"]
  by (simp add: validator_llm_down_def validator_ok_def env_llm_down_def env_ok_def)

text \<open>Claim C10 as stated fails: a test case that holds a set makes the validator raise.\<close>

theorem C10_validate_counterexample:
  "validate_test_cases validator_ok [test_case_with_set] ''class HomePage {}'' = Inl TypeError"
  by (simp add: validate_test_cases_def json_dumps_def validator_ok_def test_case_with_set_def)

end
